theory Spec2Isabelle
  imports Main "HOL-Library.Sublist"
begin

section \<open>The regsafe tokenizer (src/src/index.ts)\<close>

text \<open>
  The class \<^verbatim>\<open>Regsafe\<close> holds a read-only string \<^verbatim>\<open>regex\<close> and a mutable cursor
  \<^verbatim>\<open>position\<close>, initialised to 0. Every method is embedded as a function that takes
  the string and the cursor and returns its result together with the new cursor.
  A string is a list of characters, one for each code unit; \<^verbatim>\<open>regex.length\<close> is
  \<open>length regex\<close>. The code compares characters with ASCII literals only. The cursor
  is a natural number: the code only ever adds one to it.
\<close>

subsection \<open>Data model\<close>

text \<open>The enum \<^verbatim>\<open>TokenType\<close>. The member \<^verbatim>\<open>CHAR\<close> is written \<open>CHAR_T\<close>, since
  \<open>CHAR\<close> is reserved syntax of the library.\<close>

datatype TokenType =
    CHAR_T
  | META_CHAR
  | GROUP_OPEN
  | GROUP_CLOSE
  | RANGE_OPEN
  | RANGE_CLOSE
  | PIPE
  | QUANTIFIER
  | ESCAPE
  | ANCHOR
  | LOOKAHEAD
  | NEG_LOOKAHEAD
  | UNICODE_ESCAPE
  | HEX_ESCAPE
  | BACKREFERENCE

text \<open>The interface \<^verbatim>\<open>Token\<close>.\<close>

record Token =
  type :: TokenType
  "value" :: string
  position :: nat

subsection \<open>Reading the input\<close>

text \<open>The backslash character.\<close>

definition backslash :: char where
  "backslash = CHR 0x5C"

text \<open>\<^verbatim>\<open>this.regex[i]\<close>: the character at index \<open>i\<close>, or \<^verbatim>\<open>undefined\<close> (here \<open>None\<close>)
  when \<open>i\<close> is not below the length. The read never fails.\<close>

definition str_index :: "string \<Rightarrow> nat \<Rightarrow> char option" where
  "str_index regex i = (if i < length regex then Some (regex ! i) else None)"

text \<open>The conversion to a string that \<^verbatim>\<open>+=\<close>, a template literal and \<^verbatim>\<open>RegExp.test\<close>
  apply to their operand: \<^verbatim>\<open>undefined\<close> becomes the nine characters of its name.\<close>

definition to_string :: "char option \<Rightarrow> string" where
  "to_string c = (case c of Some ch \<Rightarrow> [ch] | None \<Rightarrow> ''undefined'')"

text \<open>\<^verbatim>\<open>/[0-9]/.test(s)\<close>: some character of \<open>s\<close> is a decimal digit.\<close>

definition isDigit :: "char \<Rightarrow> bool" where
  "isDigit c = (List.member ''0123456789'' c)"

definition test_digit :: "string \<Rightarrow> bool" where
  "test_digit s = list_ex isDigit s"

subsection \<open>Helpers of the class\<close>

definition createToken :: "TokenType \<Rightarrow> string \<Rightarrow> nat \<Rightarrow> Token" where
  "createToken ty v pos = \<lparr>type = ty, value = v, position = pos\<rparr>"

definition isMetaChar :: "char \<Rightarrow> bool" where
  "isMetaChar c = (List.member ''*+?.'' c)"

definition isAnchor :: "char \<Rightarrow> bool" where
  "isAnchor c = (c = CHR ''^'' \<or> c = CHR ''$'')"

definition isQuantifierStart :: "char \<Rightarrow> bool" where
  "isQuantifierStart c = (c = CHR ''{'')"

subsection \<open>parseQuantifier\<close>

text \<open>The \<^verbatim>\<open>while\<close> loop of \<^verbatim>\<open>parseQuantifier\<close>: it reads \<^verbatim>\<open>regex[position]\<close> first and
  tests the bound second.\<close>

function parseQuantifier_loop :: "string \<Rightarrow> string \<Rightarrow> nat \<Rightarrow> string \<times> nat" where
  "parseQuantifier_loop regex quantifier pos =
     (if str_index regex pos \<noteq> Some (CHR ''}'') \<and> pos < length regex
      then parseQuantifier_loop regex (quantifier @ to_string (str_index regex pos)) (pos + 1)
      else (quantifier, pos))"
  by pat_completeness auto
termination
  by (relation "measure (\<lambda>(regex, quantifier, pos). length regex - pos)") auto

definition parseQuantifier :: "string \<Rightarrow> nat \<Rightarrow> Token \<times> nat" where
  "parseQuantifier regex pos =
     (let pos1 = pos + 1;
          (quantifier, pos2) = parseQuantifier_loop regex [] pos1;
          quantifier' = quantifier @ ''}'';
          pos3 = pos2 + 1
      in (createToken QUANTIFIER quantifier' pos3, pos3))"

subsection \<open>parseRange\<close>

function parseRange_loop :: "string \<Rightarrow> Token list \<Rightarrow> nat \<Rightarrow> Token list \<times> nat" where
  "parseRange_loop regex tokens pos =
     (if str_index regex pos \<noteq> Some (CHR '']'') \<and> pos < length regex
      then (if str_index regex pos = Some (CHR ''-'')
            then parseRange_loop regex (tokens @ [createToken CHAR_T ''-'' pos]) (pos + 1)
            else parseRange_loop regex (tokens @ [createToken CHAR_T [regex ! pos] pos]) (pos + 1))
      else (tokens, pos))"
  by pat_completeness auto
termination
  by (relation "measure (\<lambda>(regex, tokens, pos). length regex - pos)") auto

definition parseRange :: "string \<Rightarrow> nat \<Rightarrow> Token list \<times> nat" where
  "parseRange regex pos =
     (let tokens0 = [createToken RANGE_OPEN ''['' pos];
          pos1 = pos + 1;
          (tokens1, pos2) = parseRange_loop regex tokens0 pos1;
          tokens2 = tokens1 @ [createToken RANGE_CLOSE '']'' pos2];
          pos3 = pos2 + 1
      in (tokens2, pos3))"

subsection \<open>parseEscape and the three scans it delegates to\<close>

text \<open>The \<^verbatim>\<open>for\<close> loop of \<^verbatim>\<open>parseUnicodeEscape\<close>, four rounds; no bound is tested, so a
  read past the end appends \<open>''undefined''\<close>.\<close>

function parseUnicodeEscape_loop :: "string \<Rightarrow> nat \<Rightarrow> string \<Rightarrow> nat \<Rightarrow> string \<times> nat" where
  "parseUnicodeEscape_loop regex i unicode pos =
     (if i < 4
      then parseUnicodeEscape_loop regex (i + 1) (unicode @ to_string (str_index regex pos)) (pos + 1)
      else (unicode, pos))"
  by pat_completeness auto
termination
  by (relation "measure (\<lambda>(regex, i, unicode, pos). 4 - i)") auto

definition parseUnicodeEscape :: "string \<Rightarrow> nat \<Rightarrow> Token \<times> nat" where
  "parseUnicodeEscape regex pos =
     (let unicode0 = [backslash, CHR ''u''];
          pos1 = pos + 1;
          (unicode, pos2) = parseUnicodeEscape_loop regex 0 unicode0 pos1
      in (createToken UNICODE_ESCAPE unicode pos2, pos2))"

text \<open>The \<^verbatim>\<open>for\<close> loop of \<^verbatim>\<open>parseHexEscape\<close>, two rounds.\<close>

function parseHexEscape_loop :: "string \<Rightarrow> nat \<Rightarrow> string \<Rightarrow> nat \<Rightarrow> string \<times> nat" where
  "parseHexEscape_loop regex i hex pos =
     (if i < 2
      then parseHexEscape_loop regex (i + 1) (hex @ to_string (str_index regex pos)) (pos + 1)
      else (hex, pos))"
  by pat_completeness auto
termination
  by (relation "measure (\<lambda>(regex, i, hex, pos). 2 - i)") auto

definition parseHexEscape :: "string \<Rightarrow> nat \<Rightarrow> Token \<times> nat" where
  "parseHexEscape regex pos =
     (let hex0 = [backslash, CHR ''x''];
          pos1 = pos + 1;
          (hex, pos2) = parseHexEscape_loop regex 0 hex0 pos1
      in (createToken HEX_ESCAPE hex pos2, pos2))"

definition parseBackreference :: "string \<Rightarrow> nat \<Rightarrow> Token \<times> nat" where
  "parseBackreference regex pos =
     (let backref = [backslash] @ to_string (str_index regex pos);
          pos1 = pos + 1
      in (createToken BACKREFERENCE backref pos1, pos1))"

definition parseEscape :: "string \<Rightarrow> nat \<Rightarrow> Token \<times> nat" where
  "parseEscape regex pos =
     (let pos1 = pos + 1;
          escapeChar = str_index regex pos1
      in if escapeChar = Some (CHR ''u'') then parseUnicodeEscape regex pos1
         else if escapeChar = Some (CHR ''x'') then parseHexEscape regex pos1
         else if test_digit (to_string escapeChar) then parseBackreference regex pos1
         else (createToken ESCAPE ([backslash] @ to_string escapeChar) pos1, pos1 + 1))"

subsection \<open>tokenizeGroupContent\<close>

text \<open>One round of the loop of \<^verbatim>\<open>tokenizeGroupContent\<close>: the tokens it pushes and the
  cursor it leaves. The loop runs it only below the length, where \<^verbatim>\<open>char\<close> is the
  character \<open>regex ! pos\<close>. There is no branch for an opening parenthesis.\<close>

definition tokenizeGroupContent_body :: "string \<Rightarrow> nat \<Rightarrow> Token list \<times> nat" where
  "tokenizeGroupContent_body regex pos =
     (let char = regex ! pos
      in if isAnchor char then ([createToken ANCHOR [char] pos], pos + 1)
         else if isMetaChar char then ([createToken META_CHAR [char] pos], pos + 1)
         else if char = CHR ''['' then parseRange regex pos
         else if isQuantifierStart char
           then (let (t, pos') = parseQuantifier regex pos in ([t], pos'))
         else if char = backslash
           then (let (t, pos') = parseEscape regex pos in ([t], pos'))
         else if char = CHR ''|'' then ([createToken PIPE [char] pos], pos + 1)
         else ([createToken CHAR_T [char] pos], pos + 1))"

text \<open>Every scan leaves the cursor beyond where it found it.\<close>

declare parseQuantifier_loop.simps [simp del]

declare parseRange_loop.simps [simp del]

declare parseUnicodeEscape_loop.simps [simp del]

declare parseHexEscape_loop.simps [simp del]

lemma parseQuantifier_loop_mono: "pos \<le> snd (parseQuantifier_loop regex quantifier pos)"
proof (induction regex quantifier pos rule: parseQuantifier_loop.induct)
  case (1 regex quantifier pos)
  show ?case
  proof (cases "str_index regex pos \<noteq> Some (CHR ''}'') \<and> pos < length regex")
    case True
    with 1 have "pos + 1 \<le> snd (parseQuantifier_loop regex quantifier pos)"
      by (subst parseQuantifier_loop.simps) simp
    then show ?thesis by simp
  next
    case False
    then show ?thesis by (subst parseQuantifier_loop.simps) auto
  qed
qed

lemma parseQuantifier_advances: "pos < snd (parseQuantifier regex pos)"
proof -
  have "pos + 1 \<le> snd (parseQuantifier_loop regex [] (pos + 1))"
    by (rule parseQuantifier_loop_mono)
  then show ?thesis
    by (auto simp: parseQuantifier_def Let_def split: prod.splits)
qed

lemma parseRange_loop_mono: "pos \<le> snd (parseRange_loop regex tokens pos)"
proof (induction regex tokens pos rule: parseRange_loop.induct)
  case (1 regex tokens pos)
  show ?case
  proof (cases "str_index regex pos \<noteq> Some (CHR '']'') \<and> pos < length regex")
    case True
    with 1 have "pos + 1 \<le> snd (parseRange_loop regex tokens pos)"
      by (subst parseRange_loop.simps) (simp split: if_splits)
    then show ?thesis by simp
  next
    case False
    then show ?thesis by (subst parseRange_loop.simps) auto
  qed
qed

lemma parseRange_advances: "pos < snd (parseRange regex pos)"
proof -
  have "pos + 1 \<le> snd (parseRange_loop regex [createToken RANGE_OPEN ''['' pos] (pos + 1))"
    by (rule parseRange_loop_mono)
  then show ?thesis
    by (auto simp: parseRange_def Let_def split: prod.splits)
qed

lemma parseUnicodeEscape_loop_snd:
  "snd (parseUnicodeEscape_loop regex i unicode pos) = pos + (4 - i)"
proof (induction regex i unicode pos rule: parseUnicodeEscape_loop.induct)
  case (1 regex i unicode pos)
  then show ?case by (subst parseUnicodeEscape_loop.simps) auto
qed

lemma parseHexEscape_loop_snd:
  "snd (parseHexEscape_loop regex i hex pos) = pos + (2 - i)"
proof (induction regex i hex pos rule: parseHexEscape_loop.induct)
  case (1 regex i hex pos)
  then show ?case by (subst parseHexEscape_loop.simps) auto
qed

lemma parseUnicodeEscape_snd: "snd (parseUnicodeEscape regex pos) = pos + 5"
  using parseUnicodeEscape_loop_snd [of regex 0 "[backslash, CHR ''u'']" "pos + 1"]
  by (auto simp: parseUnicodeEscape_def Let_def split: prod.splits)

lemma parseHexEscape_snd: "snd (parseHexEscape regex pos) = pos + 3"
  using parseHexEscape_loop_snd [of regex 0 "[backslash, CHR ''x'']" "pos + 1"]
  by (auto simp: parseHexEscape_def Let_def split: prod.splits)

lemma parseBackreference_snd: "snd (parseBackreference regex pos) = pos + 1"
  by (simp add: parseBackreference_def Let_def)

lemma parseEscape_advances: "pos < snd (parseEscape regex pos)"
  by (simp add: parseEscape_def Let_def parseUnicodeEscape_snd parseHexEscape_snd
      parseBackreference_snd)

lemma tokenizeGroupContent_body_advances: "pos < snd (tokenizeGroupContent_body regex pos)"
  using parseRange_advances [of pos regex] parseQuantifier_advances [of pos regex]
    parseEscape_advances [of pos regex]
  by (auto simp: tokenizeGroupContent_body_def Let_def split: prod.splits)

text \<open>The \<^verbatim>\<open>while\<close> loop of \<^verbatim>\<open>tokenizeGroupContent\<close>: it tests the bound first and reads
  the character second. A push, also one that spreads a list, is an append here; the
  bound of the engine on the arguments of a call comes in the section after
  \<^verbatim>\<open>tokenize\<close>.\<close>

function tokenizeGroupContent_loop :: "string \<Rightarrow> Token list \<Rightarrow> nat \<Rightarrow> Token list \<times> nat" where
  "tokenizeGroupContent_loop regex tokens pos =
     (if pos < length regex \<and> str_index regex pos \<noteq> Some (CHR '')'')
      then (case tokenizeGroupContent_body regex pos of
              (ts, pos') \<Rightarrow> tokenizeGroupContent_loop regex (tokens @ ts) pos')
      else (tokens, pos))"
  by pat_completeness auto
termination
proof (relation "measure (\<lambda>(regex, tokens, pos). length regex - pos)", goal_cases)
  case 1
  show ?case by simp
next
  case (2 regex tokens pos ts pos')
  have "pos < snd (tokenizeGroupContent_body regex pos)"
    by (rule tokenizeGroupContent_body_advances)
  with 2(2) have "pos < pos'" by (metis snd_conv)
  with 2(1) show ?case by auto
qed

declare tokenizeGroupContent_loop.simps [simp del]

definition tokenizeGroupContent :: "string \<Rightarrow> nat \<Rightarrow> Token list \<times> nat" where
  "tokenizeGroupContent regex pos = tokenizeGroupContent_loop regex [] pos"

lemma tokenizeGroupContent_loop_mono: "pos \<le> snd (tokenizeGroupContent_loop regex tokens pos)"
proof (induction regex tokens pos rule: tokenizeGroupContent_loop.induct)
  case (1 regex tokens pos)
  show ?case
  proof (cases "pos < length regex \<and> str_index regex pos \<noteq> Some (CHR '')'')")
    case True
    obtain ts pos' where b: "tokenizeGroupContent_body regex pos = (ts, pos')"
      by (cases "tokenizeGroupContent_body regex pos")
    have "pos < pos'"
      using tokenizeGroupContent_body_advances [of pos regex] b by simp
    moreover have "pos' \<le> snd (tokenizeGroupContent_loop regex (tokens @ ts) pos')"
      using 1 [OF True b [symmetric]] .
    moreover have "tokenizeGroupContent_loop regex tokens pos
        = tokenizeGroupContent_loop regex (tokens @ ts) pos'"
      using True b by (subst tokenizeGroupContent_loop.simps) simp
    ultimately show ?thesis by simp
  next
    case False
    then show ?thesis by (subst tokenizeGroupContent_loop.simps) auto
  qed
qed

lemma tokenizeGroupContent_advances:
  assumes "pos < length regex" and "str_index regex pos \<noteq> Some (CHR '')'')"
  shows "pos < snd (tokenizeGroupContent regex pos)"
proof -
  obtain ts pos' where b: "tokenizeGroupContent_body regex pos = (ts, pos')"
    by (cases "tokenizeGroupContent_body regex pos")
  have "pos < pos'"
    using tokenizeGroupContent_body_advances [of pos regex] b by simp
  moreover have "pos' \<le> snd (tokenizeGroupContent_loop regex ([] @ ts) pos')"
    by (rule tokenizeGroupContent_loop_mono)
  moreover have "tokenizeGroupContent regex pos = tokenizeGroupContent_loop regex ([] @ ts) pos'"
    unfolding tokenizeGroupContent_def using assms b
    by (subst tokenizeGroupContent_loop.simps) simp
  ultimately show ?thesis by simp
qed

subsection \<open>parseGroup\<close>

text \<open>The \<^verbatim>\<open>while\<close> loop of \<^verbatim>\<open>parseGroup\<close>, which calls \<^verbatim>\<open>tokenizeGroupContent\<close> in each
  round and appends its result.\<close>

function parseGroup_loop :: "string \<Rightarrow> Token list \<Rightarrow> nat \<Rightarrow> Token list \<times> nat" where
  "parseGroup_loop regex tokens pos =
     (if str_index regex pos \<noteq> Some (CHR '')'') \<and> pos < length regex
      then (case tokenizeGroupContent regex pos of
              (ts, pos') \<Rightarrow> parseGroup_loop regex (tokens @ ts) pos')
      else (tokens, pos))"
  by pat_completeness auto
termination
proof (relation "measure (\<lambda>(regex, tokens, pos). length regex - pos)", goal_cases)
  case 1
  show ?case by simp
next
  case (2 regex tokens pos ts pos')
  then have "pos < snd (tokenizeGroupContent regex pos)"
    by (simp add: tokenizeGroupContent_advances)
  with 2(2) have "pos < pos'" by (metis snd_conv)
  with 2(1) show ?case by auto
qed

declare parseGroup_loop.simps [simp del]

text \<open>The optional prefix of a group: after the opening parenthesis, a question mark is
  skipped, and an equals sign or an exclamation mark behind it gives a token.\<close>

definition parseGroup_prefix :: "string \<Rightarrow> Token list \<Rightarrow> nat \<Rightarrow> Token list \<times> nat" where
  "parseGroup_prefix regex tokens pos =
     (if str_index regex pos = Some (CHR ''?'')
      then (let pos1 = pos + 1
            in if str_index regex pos1 = Some (CHR ''='')
               then (tokens @ [createToken LOOKAHEAD ''(?='' pos1], pos1 + 1)
               else if str_index regex pos1 = Some (CHR ''!'')
               then (tokens @ [createToken NEG_LOOKAHEAD ''(?!)'' pos1], pos1 + 1)
               else (tokens, pos1))
      else (tokens, pos))"

definition parseGroup :: "string \<Rightarrow> nat \<Rightarrow> Token list \<times> nat" where
  "parseGroup regex pos =
     (let tokens0 = [createToken GROUP_OPEN ''('' pos];
          pos1 = pos + 1;
          (tokens1, pos2) = parseGroup_prefix regex tokens0 pos1;
          (tokens2, pos3) = parseGroup_loop regex tokens1 pos2;
          tokens3 = tokens2 @ [createToken GROUP_CLOSE '')'' pos3];
          pos4 = pos3 + 1
      in (tokens3, pos4))"

subsection \<open>tokenize\<close>

text \<open>One round of the loop of \<^verbatim>\<open>tokenize\<close>: the tokens it pushes and the cursor it
  leaves. The loop runs it only below the length, where \<^verbatim>\<open>char\<close> is the character
  \<open>regex ! pos\<close>.\<close>

definition tokenize_body :: "string \<Rightarrow> nat \<Rightarrow> Token list \<times> nat" where
  "tokenize_body regex pos =
     (let char = regex ! pos
      in if isAnchor char then ([createToken ANCHOR [char] pos], pos + 1)
         else if isMetaChar char then ([createToken META_CHAR [char] pos], pos + 1)
         else if char = CHR ''('' then parseGroup regex pos
         else if char = CHR ''['' then parseRange regex pos
         else if isQuantifierStart char
           then (let (t, pos') = parseQuantifier regex pos in ([t], pos'))
         else if char = backslash
           then (let (t, pos') = parseEscape regex pos in ([t], pos'))
         else if char = CHR ''|'' then ([createToken PIPE [char] pos], pos + 1)
         else ([createToken CHAR_T [char] pos], pos + 1))"

text \<open>The \<^verbatim>\<open>while\<close> loop of \<^verbatim>\<open>tokenize\<close>, every push an append. Its result is \<open>None\<close>
  when the loop does not come to an end, and otherwise the tokens together with the
  cursor it leaves in the instance.\<close>

partial_function (option) tokenize_loop ::
  "string \<Rightarrow> Token list \<Rightarrow> nat \<Rightarrow> (Token list \<times> nat) option" where
  "tokenize_loop regex tokens pos =
     (if pos < length regex
      then (case tokenize_body regex pos of
              (ts, pos') \<Rightarrow> tokenize_loop regex (tokens @ ts) pos')
      else Some (tokens, pos))"

declare tokenize_loop.simps [code]

text \<open>\<^verbatim>\<open>tokenize()\<close> on an instance whose cursor is \<open>pos\<close>: the token list starts empty at
  every call, the cursor is the one the instance holds. A new instance has cursor 0.\<close>

definition tokenize :: "string \<Rightarrow> nat \<Rightarrow> (Token list \<times> nat) option" where
  "tokenize regex pos = tokenize_loop regex [] pos"

section \<open>The scans under the engine's bound on the arguments of a call\<close>

















section \<open>Predicates of the properties\<close>

text \<open>The kinds that only the group scan itself creates.\<close>

definition group_kind :: "TokenType \<Rightarrow> bool" where
  "group_kind ty = (ty = GROUP_OPEN \<or> ty = GROUP_CLOSE \<or> ty = LOOKAHEAD \<or> ty = NEG_LOOKAHEAD)"

text \<open>The two kinds of the group prefix.\<close>

definition lookahead_kind :: "TokenType \<Rightarrow> bool" where
  "lookahead_kind ty = (ty = LOOKAHEAD \<or> ty = NEG_LOOKAHEAD)"

text \<open>The positions of a token list are in non-decreasing order and lie between two
  cursor values.\<close>

definition positions_within :: "nat \<Rightarrow> nat \<Rightarrow> Token list \<Rightarrow> bool" where
  "positions_within lo hi ts
     = (sorted (map position ts) \<and> list_all (\<lambda>t. lo \<le> position t \<and> position t \<le> hi) ts)"

text \<open>The characters of the input from index \<open>i\<close> up to, not including, index \<open>j\<close>.\<close>

definition slice :: "string \<Rightarrow> nat \<Rightarrow> nat \<Rightarrow> string" where
  "slice regex i j = take (j - i) (drop i regex)"

text \<open>Where the piece of the input that a token stands for ends, from the kind and the
  position of the token: a \<open>BACKREFERENCE\<close>, a \<open>UNICODE_ESCAPE\<close> and a \<open>HEX_ESCAPE\<close> are
  created behind their last character, every other token on its last character.\<close>

definition span_end :: "TokenType \<Rightarrow> nat \<Rightarrow> nat" where
  "span_end ty p =
     (case ty of
        BACKREFERENCE \<Rightarrow> p
      | UNICODE_ESCAPE \<Rightarrow> p
      | HEX_ESCAPE \<Rightarrow> p
      | _ \<Rightarrow> p + 1)"

text \<open>How many characters that piece has.\<close>

definition span_length :: "TokenType \<Rightarrow> nat" where
  "span_length ty =
     (case ty of
        LOOKAHEAD \<Rightarrow> 3
      | ESCAPE \<Rightarrow> 2
      | BACKREFERENCE \<Rightarrow> 2
      | UNICODE_ESCAPE \<Rightarrow> 6
      | HEX_ESCAPE \<Rightarrow> 4
      | _ \<Rightarrow> 1)"

text \<open>The tokens whose text is stated: the scan that built the token did not read beyond
  the end of the input, and the token is neither a \<open>QUANTIFIER\<close> nor a
  \<open>NEG_LOOKAHEAD\<close>.\<close>

definition text_stated :: "string \<Rightarrow> Token \<Rightarrow> bool" where
  "text_stated regex t =
     (case type t of
        GROUP_CLOSE \<Rightarrow> position t < length regex
      | RANGE_CLOSE \<Rightarrow> position t < length regex
      | ESCAPE \<Rightarrow> position t < length regex
      | UNICODE_ESCAPE \<Rightarrow> position t \<le> length regex
      | HEX_ESCAPE \<Rightarrow> position t \<le> length regex
      | QUANTIFIER \<Rightarrow> False
      | NEG_LOOKAHEAD \<Rightarrow> False
      | _ \<Rightarrow> True)"

text \<open>The text of a token is the piece of the input that the token stands for.\<close>

definition text_exact :: "string \<Rightarrow> Token \<Rightarrow> bool" where
  "text_exact regex t =
     (span_length (type t) \<le> span_end (type t) (position t)
      \<and> span_end (type t) (position t) \<le> length regex
      \<and> value t = slice regex (span_end (type t) (position t) - span_length (type t))
                    (span_end (type t) (position t)))"

definition text_ok :: "string \<Rightarrow> Token \<Rightarrow> bool" where
  "text_ok regex t = (if text_stated regex t then text_exact regex t else True)"



section \<open>Progress of the cursor\<close>

lemma parseGroup_prefix_mono: "pos \<le> snd (parseGroup_prefix regex tokens pos)"
  by (simp add: parseGroup_prefix_def Let_def)

lemma parseGroup_loop_mono: "pos \<le> snd (parseGroup_loop regex tokens pos)"
proof (induction regex tokens pos rule: parseGroup_loop.induct)
  case (1 regex tokens pos)
  show ?case
  proof (cases "str_index regex pos \<noteq> Some (CHR '')'') \<and> pos < length regex")
    case True
    obtain ts pos' where b: "tokenizeGroupContent regex pos = (ts, pos')"
      by (cases "tokenizeGroupContent regex pos")
    have "pos < pos'"
      using tokenizeGroupContent_advances [of pos regex] True b by simp
    moreover have "pos' \<le> snd (parseGroup_loop regex (tokens @ ts) pos')"
      using 1 [OF True b [symmetric]] .
    moreover have "parseGroup_loop regex tokens pos = parseGroup_loop regex (tokens @ ts) pos'"
      using True b by (subst parseGroup_loop.simps) simp
    ultimately show ?thesis by simp
  next
    case False
    then show ?thesis by (subst parseGroup_loop.simps) auto
  qed
qed

lemma parseGroup_advances: "pos < snd (parseGroup regex pos)"
proof -
  obtain tokens1 pos2 where a: "parseGroup_prefix regex [createToken GROUP_OPEN ''('' pos] (pos + 1) = (tokens1, pos2)"
    by (cases "parseGroup_prefix regex [createToken GROUP_OPEN ''('' pos] (pos + 1)")
  obtain tokens2 pos3 where b: "parseGroup_loop regex tokens1 pos2 = (tokens2, pos3)"
    by (cases "parseGroup_loop regex tokens1 pos2")
  have "pos + 1 \<le> pos2"
    using parseGroup_prefix_mono [of "pos + 1" regex "[createToken GROUP_OPEN ''('' pos]"] a by simp
  moreover have "pos2 \<le> pos3"
    using parseGroup_loop_mono [of pos2 regex tokens1] b by simp
  moreover have "snd (parseGroup regex pos) = pos3 + 1"
    using a b by (simp add: parseGroup_def Let_def)
  ultimately show ?thesis by simp
qed

lemma tokenize_body_advances: "pos < snd (tokenize_body regex pos)"
  using parseRange_advances [of pos regex] parseQuantifier_advances [of pos regex]
    parseEscape_advances [of pos regex] parseGroup_advances [of pos regex]
  by (auto simp: tokenize_body_def Let_def split: prod.splits)

lemma tokenize_loop_rule:
  assumes "I tokens pos"
    and step: "\<And>tokens pos. I tokens pos \<Longrightarrow> pos < length regex \<Longrightarrow>
        I (tokens @ fst (tokenize_body regex pos)) (snd (tokenize_body regex pos))"
  shows "\<exists>toks p. tokenize_loop regex tokens pos = Some (toks, p) \<and> I toks p \<and> length regex \<le> p"
  using assms(1)
proof (induction "length regex - pos" arbitrary: tokens pos rule: less_induct)
  case less
  show ?case
  proof (cases "pos < length regex")
    case True
    obtain ts pos' where b: "tokenize_body regex pos = (ts, pos')"
      by (cases "tokenize_body regex pos")
    have adv: "pos < pos'"
      using tokenize_body_advances [of pos regex] b by simp
    have "I (tokens @ ts) pos'"
      using step [OF less.prems True] b by simp
    moreover have "length regex - pos' < length regex - pos"
      using adv True by simp
    ultimately have "\<exists>toks p. tokenize_loop regex (tokens @ ts) pos' = Some (toks, p)
        \<and> I toks p \<and> length regex \<le> p"
      using less.hyps by blast
    moreover have "tokenize_loop regex tokens pos = tokenize_loop regex (tokens @ ts) pos'"
      using True b by (subst tokenize_loop.simps) simp
    ultimately show ?thesis by simp
  next
    case False
    then have "tokenize_loop regex tokens pos = Some (tokens, pos)"
      by (subst tokenize_loop.simps) simp
    with False less.prems show ?thesis by simp
  qed
qed

lemma tokenize_returns:
  "\<exists>toks p. tokenize regex pos = Some (toks, p) \<and> pos \<le> p \<and> length regex \<le> p"
proof -
  have "\<exists>toks p. tokenize_loop regex [] pos = Some (toks, p) \<and> pos \<le> p \<and> length regex \<le> p"
  proof (rule tokenize_loop_rule [where I = "\<lambda>tokens p. pos \<le> p"])
    show "pos \<le> pos" by simp
  next
    fix tokens :: "Token list" and q
    assume "pos \<le> q"
    then show "pos \<le> snd (tokenize_body regex q)"
      using tokenize_body_advances [of q regex] by simp
  qed
  then show ?thesis by (simp add: tokenize_def)
qed

section \<open>Structure of the group scan\<close>

lemma parseGroup_loop_prefix: "\<exists>rest. fst (parseGroup_loop regex tokens pos) = tokens @ rest"
proof (induction regex tokens pos rule: parseGroup_loop.induct)
  case (1 regex tokens pos)
  show ?case
  proof (cases "str_index regex pos \<noteq> Some (CHR '')'') \<and> pos < length regex")
    case True
    obtain ts pos' where b: "tokenizeGroupContent regex pos = (ts, pos')"
      by (cases "tokenizeGroupContent regex pos")
    obtain rest where "fst (parseGroup_loop regex (tokens @ ts) pos') = (tokens @ ts) @ rest"
      using 1 [OF True b [symmetric]] by blast
    moreover have "parseGroup_loop regex tokens pos = parseGroup_loop regex (tokens @ ts) pos'"
      using True b by (subst parseGroup_loop.simps) simp
    ultimately show ?thesis by simp
  next
    case False
    then show ?thesis by (subst parseGroup_loop.simps) auto
  qed
qed

lemma parseGroup_loop_exit:
  "str_index regex (snd (parseGroup_loop regex tokens pos)) = Some (CHR '')'')
    \<or> length regex \<le> snd (parseGroup_loop regex tokens pos)"
proof (induction regex tokens pos rule: parseGroup_loop.induct)
  case (1 regex tokens pos)
  show ?case
  proof (cases "str_index regex pos \<noteq> Some (CHR '')'') \<and> pos < length regex")
    case True
    obtain ts pos' where b: "tokenizeGroupContent regex pos = (ts, pos')"
      by (cases "tokenizeGroupContent regex pos")
    have "parseGroup_loop regex tokens pos = parseGroup_loop regex (tokens @ ts) pos'"
      using True b by (subst parseGroup_loop.simps) simp
    then show ?thesis
      using 1 [OF True b [symmetric]] by simp
  next
    case False
    then have "parseGroup_loop regex tokens pos = (tokens, pos)"
      by (subst parseGroup_loop.simps) auto
    with False show ?thesis by auto
  qed
qed


section \<open>Kinds of the tokens a scan can give\<close>

lemma isDigit_iff: "isDigit c \<longleftrightarrow> c \<in> set ''0123456789''"
  by (simp add: isDigit_def)

lemma isMetaChar_iff: "isMetaChar c \<longleftrightarrow> c \<in> set ''*+?.''"
  by (simp add: isMetaChar_def)

lemma parseRange_loop_kinds:
  "list_all (\<lambda>t. \<not> group_kind (type t)) tokens
    \<Longrightarrow> list_all (\<lambda>t. \<not> group_kind (type t)) (fst (parseRange_loop regex tokens pos))"
proof (induction regex tokens pos rule: parseRange_loop.induct)
  case (1 regex tokens pos)
  show ?case
  proof (cases "str_index regex pos \<noteq> Some (CHR '']'') \<and> pos < length regex")
    case True
    then show ?thesis
      using 1 by (subst parseRange_loop.simps) (simp add: createToken_def group_kind_def)
  next
    case False
    then show ?thesis using "1.prems" by (subst parseRange_loop.simps) auto
  qed
qed

lemma parseRange_kinds: "list_all (\<lambda>t. \<not> group_kind (type t)) (fst (parseRange regex pos))"
proof -
  have "list_all (\<lambda>t. \<not> group_kind (type t))
      (fst (parseRange_loop regex [createToken RANGE_OPEN ''['' pos] (pos + 1)))"
    by (rule parseRange_loop_kinds) (simp add: createToken_def group_kind_def)
  then show ?thesis
    by (auto simp: parseRange_def Let_def createToken_def group_kind_def split: prod.splits)
qed

lemma parseQuantifier_kind: "type (fst (parseQuantifier regex pos)) = QUANTIFIER"
  by (simp add: parseQuantifier_def Let_def createToken_def split: prod.splits)

lemma parseEscape_kind: "\<not> group_kind (type (fst (parseEscape regex pos)))"
  by (simp add: parseEscape_def parseUnicodeEscape_def parseHexEscape_def
      parseBackreference_def Let_def createToken_def group_kind_def split: prod.splits)

lemma tokenizeGroupContent_body_kinds:
  "list_all (\<lambda>t. \<not> group_kind (type t)) (fst (tokenizeGroupContent_body regex pos))"
  using parseRange_kinds [of regex pos] parseQuantifier_kind [of regex pos]
    parseEscape_kind [of regex pos]
  by (auto simp: tokenizeGroupContent_body_def Let_def createToken_def group_kind_def
      split: prod.splits)

lemma tokenizeGroupContent_loop_kinds:
  "list_all (\<lambda>t. \<not> group_kind (type t)) tokens
    \<Longrightarrow> list_all (\<lambda>t. \<not> group_kind (type t)) (fst (tokenizeGroupContent_loop regex tokens pos))"
proof (induction regex tokens pos rule: tokenizeGroupContent_loop.induct)
  case (1 regex tokens pos)
  show ?case
  proof (cases "pos < length regex \<and> str_index regex pos \<noteq> Some (CHR '')'')")
    case True
    obtain ts pos' where b: "tokenizeGroupContent_body regex pos = (ts, pos')"
      by (cases "tokenizeGroupContent_body regex pos")
    have "list_all (\<lambda>t. \<not> group_kind (type t)) ts"
      using tokenizeGroupContent_body_kinds [of regex pos] b by simp
    with "1.prems" have "list_all (\<lambda>t. \<not> group_kind (type t)) (tokens @ ts)" by simp
    then have "list_all (\<lambda>t. \<not> group_kind (type t))
        (fst (tokenizeGroupContent_loop regex (tokens @ ts) pos'))"
      using 1(1) [OF True b [symmetric]] by simp
    moreover have "tokenizeGroupContent_loop regex tokens pos
        = tokenizeGroupContent_loop regex (tokens @ ts) pos'"
      using True b by (subst tokenizeGroupContent_loop.simps) simp
    ultimately show ?thesis by simp
  next
    case False
    then show ?thesis using "1.prems" by (subst tokenizeGroupContent_loop.simps) auto
  qed
qed

lemma tokenizeGroupContent_kinds:
  "list_all (\<lambda>t. \<not> group_kind (type t)) (fst (tokenizeGroupContent regex pos))"
  unfolding tokenizeGroupContent_def by (rule tokenizeGroupContent_loop_kinds) simp

lemma tokenizeGroupContent_body_paren:
  "regex ! pos = CHR ''('' \<Longrightarrow>
    tokenizeGroupContent_body regex pos = ([createToken CHAR_T ''('' pos], pos + 1)"
  by (simp add: tokenizeGroupContent_body_def isAnchor_def isMetaChar_iff
      isQuantifierStart_def backslash_def)

section \<open>The prefix and the first tokens of a group\<close>

lemma parseGroup_prefix_lookahead:
  "str_index regex pos = Some (CHR ''?'') \<Longrightarrow> str_index regex (pos + 1) = Some (CHR ''='') \<Longrightarrow>
    parseGroup_prefix regex tokens pos = (tokens @ [createToken LOOKAHEAD ''(?='' (pos + 1)], pos + 2)"
  by (simp add: parseGroup_prefix_def Let_def)

lemma parseGroup_prefix_neg_lookahead:
  "str_index regex pos = Some (CHR ''?'') \<Longrightarrow> str_index regex (pos + 1) = Some (CHR ''!'') \<Longrightarrow>
    parseGroup_prefix regex tokens pos
      = (tokens @ [createToken NEG_LOOKAHEAD ''(?!)'' (pos + 1)], pos + 2)"
  by (simp add: parseGroup_prefix_def Let_def)

lemma parseGroup_prefix_other:
  "str_index regex pos = Some (CHR ''?'') \<Longrightarrow> str_index regex (pos + 1) \<noteq> Some (CHR ''='') \<Longrightarrow>
    str_index regex (pos + 1) \<noteq> Some (CHR ''!'') \<Longrightarrow>
    parseGroup_prefix regex tokens pos = (tokens, pos + 1)"
  by (simp add: parseGroup_prefix_def Let_def)

lemma parseGroup_unfold:
  "parseGroup_prefix regex [createToken GROUP_OPEN ''('' pos] (pos + 1) = (tokens1, pos2) \<Longrightarrow>
    \<exists>rest. fst (parseGroup regex pos) = tokens1 @ rest
      \<and> rest = drop (length tokens1) (fst (parseGroup_loop regex tokens1 pos2))
               @ [createToken GROUP_CLOSE '')'' (snd (parseGroup_loop regex tokens1 pos2))]"
proof -
  assume a: "parseGroup_prefix regex [createToken GROUP_OPEN ''('' pos] (pos + 1) = (tokens1, pos2)"
  obtain tokens2 pos3 where b: "parseGroup_loop regex tokens1 pos2 = (tokens2, pos3)"
    by (cases "parseGroup_loop regex tokens1 pos2")
  obtain r2 where r2: "tokens2 = tokens1 @ r2"
    using parseGroup_loop_prefix [of regex tokens1 pos2] b by auto
  have "fst (parseGroup regex pos) = tokens1 @ r2 @ [createToken GROUP_CLOSE '')'' pos3]"
    using a b r2 by (simp add: parseGroup_def Let_def)
  then show ?thesis using b r2 by simp
qed

lemma tokenizeGroupContent_loop_prefix:
  "\<exists>rest. fst (tokenizeGroupContent_loop regex tokens pos) = tokens @ rest"
proof (induction regex tokens pos rule: tokenizeGroupContent_loop.induct)
  case (1 regex tokens pos)
  show ?case
  proof (cases "pos < length regex \<and> str_index regex pos \<noteq> Some (CHR '')'')")
    case True
    obtain ts pos' where b: "tokenizeGroupContent_body regex pos = (ts, pos')"
      by (cases "tokenizeGroupContent_body regex pos")
    obtain rest where "fst (tokenizeGroupContent_loop regex (tokens @ ts) pos') = (tokens @ ts) @ rest"
      using 1 [OF True b [symmetric]] by blast
    moreover have "tokenizeGroupContent_loop regex tokens pos
        = tokenizeGroupContent_loop regex (tokens @ ts) pos'"
      using True b by (subst tokenizeGroupContent_loop.simps) simp
    ultimately show ?thesis by simp
  next
    case False
    then show ?thesis by (subst tokenizeGroupContent_loop.simps) auto
  qed
qed

lemma tokenizeGroupContent_body_plain:
  assumes "regex ! pos = c" and "c = CHR '':'' \<or> c = CHR ''<''"
  shows "tokenizeGroupContent_body regex pos = ([createToken CHAR_T [c] pos], pos + 1)"
  using assms
  by (auto simp: tokenizeGroupContent_body_def isAnchor_def isMetaChar_iff
      isQuantifierStart_def backslash_def)

lemma tokenizeGroupContent_plain:
  assumes "str_index regex pos = Some c" and "c = CHR '':'' \<or> c = CHR ''<''"
  shows "\<exists>rest. fst (tokenizeGroupContent regex pos) = createToken CHAR_T [c] pos # rest"
proof -
  from assms(1) have l: "pos < length regex" and r: "regex ! pos = c"
    by (auto simp: str_index_def split: if_splits)
  have "str_index regex pos \<noteq> Some (CHR '')'')"
    using assms by auto
  then have "tokenizeGroupContent regex pos
      = tokenizeGroupContent_loop regex ([] @ [createToken CHAR_T [c] pos]) (pos + 1)"
    unfolding tokenizeGroupContent_def
    using l tokenizeGroupContent_body_plain [OF r assms(2)]
    by (subst tokenizeGroupContent_loop.simps) simp
  then show ?thesis
    using tokenizeGroupContent_loop_prefix [of regex "[createToken CHAR_T [c] pos]" "pos + 1"]
    by auto
qed

lemma parseGroup_loop_plain:
  assumes "str_index regex pos = Some c" and "c = CHR '':'' \<or> c = CHR ''<''"
  shows "\<exists>rest. fst (parseGroup_loop regex tokens pos) = tokens @ createToken CHAR_T [c] pos # rest"
proof -
  from assms(1) have l: "pos < length regex"
    by (auto simp: str_index_def split: if_splits)
  have n: "str_index regex pos \<noteq> Some (CHR '')'')"
    using assms by auto
  obtain ts pos' where b: "tokenizeGroupContent regex pos = (ts, pos')"
    by (cases "tokenizeGroupContent regex pos")
  obtain r1 where r1: "ts = createToken CHAR_T [c] pos # r1"
    using tokenizeGroupContent_plain [OF assms] b by auto
  have "parseGroup_loop regex tokens pos = parseGroup_loop regex (tokens @ ts) pos'"
    using l n b by (subst parseGroup_loop.simps) simp
  moreover obtain r2 where "fst (parseGroup_loop regex (tokens @ ts) pos') = (tokens @ ts) @ r2"
    using parseGroup_loop_prefix [of regex "tokens @ ts" pos'] by blast
  ultimately show ?thesis using r1 by simp
qed

lemma parseGroup_loop_no_lookahead:
  "list_all (\<lambda>t. \<not> lookahead_kind (type t)) tokens
    \<Longrightarrow> list_all (\<lambda>t. \<not> lookahead_kind (type t)) (fst (parseGroup_loop regex tokens pos))"
proof (induction regex tokens pos rule: parseGroup_loop.induct)
  case (1 regex tokens pos)
  show ?case
  proof (cases "str_index regex pos \<noteq> Some (CHR '')'') \<and> pos < length regex")
    case True
    obtain ts pos' where b: "tokenizeGroupContent regex pos = (ts, pos')"
      by (cases "tokenizeGroupContent regex pos")
    have "list_all (\<lambda>t. \<not> group_kind (type t)) ts"
      using tokenizeGroupContent_kinds [of regex pos] b by simp
    then have "list_all (\<lambda>t. \<not> lookahead_kind (type t)) ts"
      by (simp add: list_all_iff group_kind_def lookahead_kind_def)
    with "1.prems" have "list_all (\<lambda>t. \<not> lookahead_kind (type t)) (tokens @ ts)" by simp
    then have "list_all (\<lambda>t. \<not> lookahead_kind (type t))
        (fst (parseGroup_loop regex (tokens @ ts) pos'))"
      using 1(1) [OF True b [symmetric]] by simp
    moreover have "parseGroup_loop regex tokens pos = parseGroup_loop regex (tokens @ ts) pos'"
      using True b by (subst parseGroup_loop.simps) simp
    ultimately show ?thesis by simp
  next
    case False
    then show ?thesis using "1.prems" by (subst parseGroup_loop.simps) auto
  qed
qed

lemma parseGroup_no_lookahead:
  assumes "str_index regex (pos + 1) \<noteq> Some (CHR ''?'')
      \<or> (str_index regex (pos + 2) \<noteq> Some (CHR ''='') \<and> str_index regex (pos + 2) \<noteq> Some (CHR ''!''))"
  shows "list_all (\<lambda>t. \<not> lookahead_kind (type t)) (fst (parseGroup regex pos))"
proof -
  obtain tokens1 pos2 where a: "parseGroup_prefix regex [createToken GROUP_OPEN ''('' pos] (pos + 1) = (tokens1, pos2)"
    by (cases "parseGroup_prefix regex [createToken GROUP_OPEN ''('' pos] (pos + 1)")
  obtain tokens2 pos3 where b: "parseGroup_loop regex tokens1 pos2 = (tokens2, pos3)"
    by (cases "parseGroup_loop regex tokens1 pos2")
  have "tokens1 = [createToken GROUP_OPEN ''('' pos]"
    using a assms by (auto simp: parseGroup_prefix_def Let_def numeral_2_eq_2 split: if_splits)
  then have "list_all (\<lambda>t. \<not> lookahead_kind (type t)) tokens1"
    by (simp add: createToken_def lookahead_kind_def)
  then have "list_all (\<lambda>t. \<not> lookahead_kind (type t)) tokens2"
    using parseGroup_loop_no_lookahead [of tokens1 regex pos2] b by simp
  moreover have "fst (parseGroup regex pos) = tokens2 @ [createToken GROUP_CLOSE '')'' pos3]"
    using a b by (simp add: parseGroup_def Let_def)
  ultimately show ?thesis by (simp add: createToken_def lookahead_kind_def)
qed

section \<open>Backreferences\<close>

lemma parseEscape_digit:
  assumes "str_index regex (pos + 1) = Some d" and "isDigit d"
  shows "parseEscape regex pos = (createToken BACKREFERENCE [backslash, d] (pos + 2), pos + 2)"
proof -
  from assms(2) have "d \<noteq> CHR ''u''" and "d \<noteq> CHR ''x''"
    by (auto simp: isDigit_iff)
  then show ?thesis
    using assms
    by (simp add: parseEscape_def parseBackreference_def Let_def to_string_def test_digit_def)
qed

section \<open>Positions of the tokens\<close>

lemma positions_within_Nil: "positions_within lo hi []"
  by (simp add: positions_within_def)

lemma positions_within_single:
  "lo \<le> p \<Longrightarrow> p \<le> hi \<Longrightarrow> positions_within lo hi [createToken ty v p]"
  by (simp add: positions_within_def createToken_def)

lemma positions_within_append:
  assumes "positions_within lo mid ts" and "positions_within mid hi ts'"
    and "lo \<le> mid" and "mid \<le> hi"
  shows "positions_within lo hi (ts @ ts')"
  using assms unfolding positions_within_def list_all_iff
  by (auto simp: sorted_append intro: order_trans)

lemma positions_within_snoc:
  assumes "positions_within lo p ts" and "lo \<le> p" and "p \<le> hi"
  shows "positions_within lo hi (ts @ [createToken ty v p])"
  using positions_within_append [OF assms(1) positions_within_single [of p p hi ty v] assms(2,3)]
    assms(3)
  by simp

lemma parseRange_loop_positions:
  "positions_within lo pos tokens \<Longrightarrow> lo \<le> pos
    \<Longrightarrow> positions_within lo (snd (parseRange_loop regex tokens pos))
          (fst (parseRange_loop regex tokens pos))"
proof (induction regex tokens pos rule: parseRange_loop.induct)
  case (1 regex tokens pos)
  show ?case
  proof (cases "str_index regex pos \<noteq> Some (CHR '']'') \<and> pos < length regex")
    case True
    have s: "positions_within lo (pos + 1) (tokens @ [createToken CHAR_T v pos])" for v
      using positions_within_snoc [OF "1.prems"(1,2), of "pos + 1"] by simp
    show ?thesis
    proof (cases "str_index regex pos = Some (CHR ''-'')")
      case dash: True
      have "parseRange_loop regex tokens pos
          = parseRange_loop regex (tokens @ [createToken CHAR_T ''-'' pos]) (pos + 1)"
        using True dash by (subst parseRange_loop.simps) simp
      then show ?thesis
        using 1(1) [OF True dash s] "1.prems"(2) by simp
    next
      case other: False
      have "parseRange_loop regex tokens pos
          = parseRange_loop regex (tokens @ [createToken CHAR_T [regex ! pos] pos]) (pos + 1)"
        using True other by (subst parseRange_loop.simps) simp
      then show ?thesis
        using 1(2) [OF True other s] "1.prems"(2) by simp
    qed
  next
    case False
    then have "parseRange_loop regex tokens pos = (tokens, pos)"
      by (subst parseRange_loop.simps) auto
    then show ?thesis using "1.prems" by simp
  qed
qed

lemma parseRange_positions:
  "positions_within pos (snd (parseRange regex pos)) (fst (parseRange regex pos))"
proof -
  obtain tokens1 pos2 where a: "parseRange_loop regex [createToken RANGE_OPEN ''['' pos] (pos + 1) = (tokens1, pos2)"
    by (cases "parseRange_loop regex [createToken RANGE_OPEN ''['' pos] (pos + 1)")
  have "positions_within pos (pos + 1) [createToken RANGE_OPEN ''['' pos]"
    by (rule positions_within_single) simp_all
  then have w: "positions_within pos pos2 tokens1"
    using parseRange_loop_positions [of pos "pos + 1" "[createToken RANGE_OPEN ''['' pos]" regex] a
    by simp
  have "pos + 1 \<le> pos2"
    using parseRange_loop_mono [of "pos + 1" regex "[createToken RANGE_OPEN ''['' pos]"] a by simp
  then have "positions_within pos (pos2 + 1) (tokens1 @ [createToken RANGE_CLOSE '']'' pos2])"
    by (intro positions_within_snoc [OF w]) simp_all
  moreover have "parseRange regex pos = (tokens1 @ [createToken RANGE_CLOSE '']'' pos2], pos2 + 1)"
    using a by (simp add: parseRange_def Let_def)
  ultimately show ?thesis by simp
qed

lemma parseQuantifier_position:
  "position (fst (parseQuantifier regex pos)) = snd (parseQuantifier regex pos)"
  by (simp add: parseQuantifier_def Let_def createToken_def split: prod.splits)

lemma parseQuantifier_positions:
  "positions_within pos (snd (parseQuantifier regex pos)) [fst (parseQuantifier regex pos)]"
  using parseQuantifier_position [of regex pos] parseQuantifier_advances [of pos regex]
  by (simp add: positions_within_def)

lemma parseEscape_position:
  "pos \<le> position (fst (parseEscape regex pos))
    \<and> position (fst (parseEscape regex pos)) \<le> snd (parseEscape regex pos)"
proof -
  have u: "position (fst (parseUnicodeEscape regex p)) = snd (parseUnicodeEscape regex p)" for p
    by (simp add: parseUnicodeEscape_def Let_def createToken_def split: prod.splits)
  have h: "position (fst (parseHexEscape regex p)) = snd (parseHexEscape regex p)" for p
    by (simp add: parseHexEscape_def Let_def createToken_def split: prod.splits)
  have b: "position (fst (parseBackreference regex p)) = snd (parseBackreference regex p)" for p
    by (simp add: parseBackreference_def Let_def createToken_def)
  show ?thesis
    using u [of "pos + 1"] h [of "pos + 1"] b [of "pos + 1"]
      parseUnicodeEscape_snd [of regex "pos + 1"] parseHexEscape_snd [of regex "pos + 1"]
      parseBackreference_snd [of regex "pos + 1"]
    by (simp add: parseEscape_def Let_def createToken_def)
qed

lemma parseEscape_positions:
  "positions_within pos (snd (parseEscape regex pos)) [fst (parseEscape regex pos)]"
  using parseEscape_position [of pos regex] by (simp add: positions_within_def)

lemma tokenizeGroupContent_body_positions:
  "positions_within pos (snd (tokenizeGroupContent_body regex pos))
     (fst (tokenizeGroupContent_body regex pos))"
  using parseRange_positions [of pos regex] parseQuantifier_positions [of pos regex]
    parseEscape_positions [of pos regex]
  by (auto simp: tokenizeGroupContent_body_def Let_def positions_within_single
      split: prod.splits)

lemma tokenizeGroupContent_loop_positions:
  "positions_within lo pos tokens \<Longrightarrow> lo \<le> pos
    \<Longrightarrow> positions_within lo (snd (tokenizeGroupContent_loop regex tokens pos))
          (fst (tokenizeGroupContent_loop regex tokens pos))"
proof (induction regex tokens pos rule: tokenizeGroupContent_loop.induct)
  case (1 regex tokens pos)
  show ?case
  proof (cases "pos < length regex \<and> str_index regex pos \<noteq> Some (CHR '')'')")
    case True
    obtain ts pos' where b: "tokenizeGroupContent_body regex pos = (ts, pos')"
      by (cases "tokenizeGroupContent_body regex pos")
    have adv: "pos \<le> pos'"
      using tokenizeGroupContent_body_advances [of pos regex] b by simp
    have "positions_within pos pos' ts"
      using tokenizeGroupContent_body_positions [of pos regex] b by simp
    then have "positions_within lo pos' (tokens @ ts)"
      using positions_within_append [OF "1.prems"(1) _ "1.prems"(2) adv] by simp
    moreover have "lo \<le> pos'" using adv "1.prems"(2) by simp
    ultimately have "positions_within lo (snd (tokenizeGroupContent_loop regex (tokens @ ts) pos'))
          (fst (tokenizeGroupContent_loop regex (tokens @ ts) pos'))"
      using 1(1) [OF True b [symmetric]] by simp
    moreover have "tokenizeGroupContent_loop regex tokens pos
        = tokenizeGroupContent_loop regex (tokens @ ts) pos'"
      using True b by (subst tokenizeGroupContent_loop.simps) simp
    ultimately show ?thesis by simp
  next
    case False
    then have "tokenizeGroupContent_loop regex tokens pos = (tokens, pos)"
      by (subst tokenizeGroupContent_loop.simps) auto
    then show ?thesis using "1.prems" by simp
  qed
qed

lemma tokenizeGroupContent_positions:
  "positions_within pos (snd (tokenizeGroupContent regex pos)) (fst (tokenizeGroupContent regex pos))"
  unfolding tokenizeGroupContent_def
  by (rule tokenizeGroupContent_loop_positions) (simp_all add: positions_within_Nil)

lemma parseGroup_loop_positions:
  "positions_within lo pos tokens \<Longrightarrow> lo \<le> pos
    \<Longrightarrow> positions_within lo (snd (parseGroup_loop regex tokens pos))
          (fst (parseGroup_loop regex tokens pos))"
proof (induction regex tokens pos rule: parseGroup_loop.induct)
  case (1 regex tokens pos)
  show ?case
  proof (cases "str_index regex pos \<noteq> Some (CHR '')'') \<and> pos < length regex")
    case True
    obtain ts pos' where b: "tokenizeGroupContent regex pos = (ts, pos')"
      by (cases "tokenizeGroupContent regex pos")
    have adv: "pos \<le> pos'"
      using tokenizeGroupContent_loop_mono [of pos regex "[]"] b
      by (simp add: tokenizeGroupContent_def)
    have "positions_within pos pos' ts"
      using tokenizeGroupContent_positions [of pos regex] b by simp
    then have "positions_within lo pos' (tokens @ ts)"
      using positions_within_append [OF "1.prems"(1) _ "1.prems"(2) adv] by simp
    moreover have "lo \<le> pos'" using adv "1.prems"(2) by simp
    ultimately have "positions_within lo (snd (parseGroup_loop regex (tokens @ ts) pos'))
          (fst (parseGroup_loop regex (tokens @ ts) pos'))"
      using 1(1) [OF True b [symmetric]] by simp
    moreover have "parseGroup_loop regex tokens pos = parseGroup_loop regex (tokens @ ts) pos'"
      using True b by (subst parseGroup_loop.simps) simp
    ultimately show ?thesis by simp
  next
    case False
    then have "parseGroup_loop regex tokens pos = (tokens, pos)"
      by (subst parseGroup_loop.simps) auto
    then show ?thesis using "1.prems" by simp
  qed
qed

lemma parseGroup_prefix_positions:
  assumes "positions_within lo pos tokens" and "lo \<le> pos"
  shows "positions_within lo (snd (parseGroup_prefix regex tokens pos))
          (fst (parseGroup_prefix regex tokens pos))"
proof -
  have 1: "positions_within lo (pos + 1 + 1) (tokens @ [createToken ty v (pos + 1)])" for ty v
  proof -
    have "positions_within lo (pos + 1) tokens"
      using assms by (auto simp: positions_within_def list_all_iff)
    then show ?thesis
      by (intro positions_within_snoc) (use assms(2) in simp_all)
  qed
  have 2: "positions_within lo (pos + 1) tokens"
    using assms by (auto simp: positions_within_def list_all_iff)
  show ?thesis
    using 1 2 assms(1) by (simp add: parseGroup_prefix_def Let_def)
qed

lemma parseGroup_positions:
  "positions_within pos (snd (parseGroup regex pos)) (fst (parseGroup regex pos))"
proof -
  obtain tokens1 pos2 where a: "parseGroup_prefix regex [createToken GROUP_OPEN ''('' pos] (pos + 1) = (tokens1, pos2)"
    by (cases "parseGroup_prefix regex [createToken GROUP_OPEN ''('' pos] (pos + 1)")
  obtain tokens2 pos3 where b: "parseGroup_loop regex tokens1 pos2 = (tokens2, pos3)"
    by (cases "parseGroup_loop regex tokens1 pos2")
  have 12: "pos + 1 \<le> pos2"
    using parseGroup_prefix_mono [of "pos + 1" regex "[createToken GROUP_OPEN ''('' pos]"] a by simp
  have 23: "pos2 \<le> pos3"
    using parseGroup_loop_mono [of pos2 regex tokens1] b by simp
  have "positions_within pos (pos + 1) [createToken GROUP_OPEN ''('' pos]"
    by (rule positions_within_single) simp_all
  then have "positions_within pos pos2 tokens1"
    using parseGroup_prefix_positions [of pos "pos + 1" "[createToken GROUP_OPEN ''('' pos]" regex] a
    by simp
  then have w: "positions_within pos pos3 tokens2"
    using parseGroup_loop_positions [of pos pos2 tokens1 regex] b 12 by simp
  have "positions_within pos (pos3 + 1) (tokens2 @ [createToken GROUP_CLOSE '')'' pos3])"
    by (intro positions_within_snoc [OF w]) (use 12 23 in simp_all)
  moreover have "parseGroup regex pos = (tokens2 @ [createToken GROUP_CLOSE '')'' pos3], pos3 + 1)"
    using a b by (simp add: parseGroup_def Let_def)
  ultimately show ?thesis by simp
qed

lemma tokenize_body_positions:
  "positions_within pos (snd (tokenize_body regex pos)) (fst (tokenize_body regex pos))"
  using parseRange_positions [of pos regex] parseQuantifier_positions [of pos regex]
    parseEscape_positions [of pos regex] parseGroup_positions [of pos regex]
  by (auto simp: tokenize_body_def Let_def positions_within_single split: prod.splits)

lemma tokenize_positions:
  assumes "tokenize regex pos = Some (toks, p)"
  shows "positions_within pos p toks"
proof -
  have "\<exists>toks p. tokenize_loop regex [] pos = Some (toks, p)
      \<and> (positions_within pos p toks \<and> pos \<le> p) \<and> length regex \<le> p"
  proof (rule tokenize_loop_rule [where I = "\<lambda>tokens p. positions_within pos p tokens \<and> pos \<le> p"])
    show "positions_within pos pos [] \<and> pos \<le> pos"
      by (simp add: positions_within_Nil)
  next
    fix tokens :: "Token list" and q
    assume i: "positions_within pos q tokens \<and> pos \<le> q"
    have adv: "q \<le> snd (tokenize_body regex q)"
      using tokenize_body_advances [of q regex] by simp
    have "positions_within pos (snd (tokenize_body regex q)) (tokens @ fst (tokenize_body regex q))"
      using positions_within_append [OF _ tokenize_body_positions [of q regex] _ adv] i by blast
    with adv i show "positions_within pos (snd (tokenize_body regex q))
        (tokens @ fst (tokenize_body regex q)) \<and> pos \<le> snd (tokenize_body regex q)"
      by simp
  qed
  with assms show ?thesis by (auto simp: tokenize_def)
qed

section \<open>The bounded scans and the unbounded ones\<close>















section \<open>How many tokens a scan gives, and how far it moves the cursor\<close>


















section \<open>A group with more tokens than one call accepts\<close>









section \<open>Texts of the tokens\<close>

lemma slice_empty: "slice regex i i = []"
  by (simp add: slice_def)

lemma slice_snoc:
  assumes "i \<le> j" and "j < length regex"
  shows "slice regex i j @ [regex ! j] = slice regex i (j + 1)"
proof -
  have "j - i < length (drop i regex)" using assms by simp
  then have "take (Suc (j - i)) (drop i regex) = take (j - i) (drop i regex) @ [drop i regex ! (j - i)]"
    by (rule take_Suc_conv_app_nth)
  moreover have "drop i regex ! (j - i) = regex ! j" using assms by simp
  moreover have "j + 1 - i = Suc (j - i)" using assms by simp
  ultimately show ?thesis by (simp add: slice_def)
qed

lemma slice_one: "i < length regex \<Longrightarrow> [regex ! i] = slice regex i (i + 1)"
  using slice_snoc [of i i regex] by (simp add: slice_empty)

lemma slice_two:
  assumes "i + 1 < length regex"
  shows "[regex ! i, regex ! (i + 1)] = slice regex i (i + 2)"
proof -
  have a: "[regex ! i] = slice regex i (i + 1)"
    by (rule slice_one) (use assms in simp)
  have "[regex ! i, regex ! (i + 1)] = [regex ! i] @ [regex ! (i + 1)]" by simp
  also have "\<dots> = slice regex i (i + 1) @ [regex ! (i + 1)]" by (simp only: a)
  also have "\<dots> = slice regex i (i + 1 + 1)"
    by (rule slice_snoc) (use assms in simp_all)
  finally show ?thesis by (simp add: numeral_2_eq_2)
qed

lemma slice_three:
  assumes "i + 2 < length regex"
  shows "[regex ! i, regex ! (i + 1), regex ! (i + 2)] = slice regex i (i + 3)"
proof -
  have a: "[regex ! i, regex ! (i + 1)] = slice regex i (i + 2)"
    by (rule slice_two) (use assms in simp)
  have "[regex ! i, regex ! (i + 1), regex ! (i + 2)]
      = [regex ! i, regex ! (i + 1)] @ [regex ! (i + 2)]" by simp
  also have "\<dots> = slice regex i (i + 2) @ [regex ! (i + 2)]" by (simp only: a)
  also have "\<dots> = slice regex i (i + 2 + 1)"
    by (rule slice_snoc) (use assms in simp_all)
  finally show ?thesis by (simp add: numeral_3_eq_3 numeral_2_eq_2)
qed

lemma sublist_slice: "sublist (slice regex i j) regex"
proof -
  have "sublist (take (j - i) (drop i regex)) (drop i regex)" by (rule sublist_take)
  also have "sublist (drop i regex) regex" by (rule sublist_drop)
  finally show ?thesis by (simp add: slice_def)
qed

lemma str_index_Some: "str_index regex i = Some c \<longleftrightarrow> i < length regex \<and> regex ! i = c"
  by (auto simp: str_index_def)

lemma str_index_to_string: "i < length regex \<Longrightarrow> to_string (str_index regex i) = [regex ! i]"
  by (simp add: str_index_def to_string_def)

lemma text_ok_at:
  assumes "v = slice regex i j" and "i \<le> j" and "j \<le> length regex"
    and "span_end ty p = j" and "span_length ty = j - i"
  shows "text_ok regex (createToken ty v p)"
  using assms by (simp add: text_ok_def text_exact_def createToken_def)

lemma text_ok_char:
  assumes "p < length regex"
    and "ty \<in> {CHAR_T, META_CHAR, ANCHOR, PIPE, GROUP_OPEN, RANGE_OPEN, GROUP_CLOSE, RANGE_CLOSE}"
  shows "text_ok regex (createToken ty [regex ! p] p)"
proof (rule text_ok_at [where i = p and j = "p + 1"])
  show "[regex ! p] = slice regex p (p + 1)" by (rule slice_one [OF assms(1)])
  show "p \<le> p + 1" by simp
  show "p + 1 \<le> length regex" using assms(1) by simp
  show "span_end ty p = p + 1" using assms(2) by (auto simp: span_end_def)
  show "span_length ty = p + 1 - p" using assms(2) by (auto simp: span_length_def)
qed

subsection \<open>parseQuantifier\<close>

lemma parseQuantifier_text: "text_ok regex (fst (parseQuantifier regex pos))"
  by (simp add: parseQuantifier_def Let_def text_ok_def text_stated_def createToken_def
      split: prod.splits)

subsection \<open>parseRange\<close>

lemma parseRange_loop_exit:
  "snd (parseRange_loop regex tokens pos) < length regex
    \<Longrightarrow> regex ! snd (parseRange_loop regex tokens pos) = CHR '']''"
proof (induction regex tokens pos rule: parseRange_loop.induct)
  case (1 regex tokens pos)
  show ?case
  proof (cases "str_index regex pos \<noteq> Some (CHR '']'') \<and> pos < length regex")
    case True
    show ?thesis
    proof (cases "str_index regex pos = Some (CHR ''-'')")
      case dash: True
      have "parseRange_loop regex tokens pos
          = parseRange_loop regex (tokens @ [createToken CHAR_T ''-'' pos]) (pos + 1)"
        using True dash by (subst parseRange_loop.simps) simp
      then show ?thesis using 1(1) [OF True dash] "1.prems" by simp
    next
      case other: False
      have "parseRange_loop regex tokens pos
          = parseRange_loop regex (tokens @ [createToken CHAR_T [regex ! pos] pos]) (pos + 1)"
        using True other by (subst parseRange_loop.simps) simp
      then show ?thesis using 1(2) [OF True other] "1.prems" by simp
    qed
  next
    case False
    then have e: "parseRange_loop regex tokens pos = (tokens, pos)"
      by (subst parseRange_loop.simps) auto
    with "1.prems" have "pos < length regex" by simp
    with False e show ?thesis by (simp add: str_index_def)
  qed
qed

lemma parseRange_loop_text:
  "list_all (text_ok regex) tokens
    \<Longrightarrow> list_all (text_ok regex) (fst (parseRange_loop regex tokens pos))"
proof (induction regex tokens pos rule: parseRange_loop.induct)
  case (1 regex tokens pos)
  show ?case
  proof (cases "str_index regex pos \<noteq> Some (CHR '']'') \<and> pos < length regex")
    case True
    then have c: "text_ok regex (createToken CHAR_T [regex ! pos] pos)"
      by (intro text_ok_char) simp_all
    show ?thesis
    proof (cases "str_index regex pos = Some (CHR ''-'')")
      case dash: True
      then have "''-'' = [regex ! pos]" by (simp add: str_index_Some)
      with c "1.prems" have "list_all (text_ok regex) (tokens @ [createToken CHAR_T ''-'' pos])"
        by simp
      moreover have "parseRange_loop regex tokens pos
          = parseRange_loop regex (tokens @ [createToken CHAR_T ''-'' pos]) (pos + 1)"
        using True dash by (subst parseRange_loop.simps) simp
      ultimately show ?thesis using 1(1) [OF True dash] by simp
    next
      case other: False
      from c "1.prems"
      have "list_all (text_ok regex) (tokens @ [createToken CHAR_T [regex ! pos] pos])"
        by simp
      moreover have "parseRange_loop regex tokens pos
          = parseRange_loop regex (tokens @ [createToken CHAR_T [regex ! pos] pos]) (pos + 1)"
        using True other by (subst parseRange_loop.simps) simp
      ultimately show ?thesis using 1(2) [OF True other] by simp
    qed
  next
    case False
    then have "parseRange_loop regex tokens pos = (tokens, pos)"
      by (subst parseRange_loop.simps) auto
    then show ?thesis using "1.prems" by simp
  qed
qed

lemma parseRange_text:
  assumes "pos < length regex" and "regex ! pos = CHR ''[''"
  shows "list_all (text_ok regex) (fst (parseRange regex pos))"
proof -
  obtain tokens1 pos2 where a: "parseRange_loop regex [createToken RANGE_OPEN ''['' pos] (pos + 1) = (tokens1, pos2)"
    by (cases "parseRange_loop regex [createToken RANGE_OPEN ''['' pos] (pos + 1)")
  have "text_ok regex (createToken RANGE_OPEN ''['' pos)"
    using text_ok_char [OF assms(1), of RANGE_OPEN] assms(2) by simp
  then have 1: "list_all (text_ok regex) tokens1"
    using parseRange_loop_text [of regex "[createToken RANGE_OPEN ''['' pos]" "pos + 1"] a by simp
  have 2: "text_ok regex (createToken RANGE_CLOSE '']'' pos2)"
  proof (cases "pos2 < length regex")
    case True
    then have "regex ! pos2 = CHR '']''"
      using parseRange_loop_exit [of regex "[createToken RANGE_OPEN ''['' pos]" "pos + 1"] a by simp
    then show ?thesis using text_ok_char [OF True, of RANGE_CLOSE] by simp
  next
    case False
    then show ?thesis by (simp add: text_ok_def text_stated_def createToken_def)
  qed
  have "fst (parseRange regex pos) = tokens1 @ [createToken RANGE_CLOSE '']'' pos2]"
    using a by (simp add: parseRange_def Let_def)
  with 1 2 show ?thesis by simp
qed

subsection \<open>parseEscape\<close>

lemma parseUnicodeEscape_loop_slice:
  "unicode = slice regex s pos \<Longrightarrow> s \<le> pos \<Longrightarrow> pos + (4 - i) \<le> length regex \<Longrightarrow>
    fst (parseUnicodeEscape_loop regex i unicode pos) = slice regex s (pos + (4 - i))"
proof (induction regex i unicode pos rule: parseUnicodeEscape_loop.induct)
  case (1 regex i unicode pos)
  show ?case
  proof (cases "i < 4")
    case True
    with "1.prems" have l: "pos < length regex" by simp
    have step: "parseUnicodeEscape_loop regex i unicode pos
        = parseUnicodeEscape_loop regex (i + 1) (unicode @ to_string (str_index regex pos)) (pos + 1)"
      using True by (subst parseUnicodeEscape_loop.simps) simp
    have ar: "pos + 1 + (4 - (i + 1)) = pos + (4 - i)" using True by simp
    have "fst (parseUnicodeEscape_loop regex (i + 1) (unicode @ to_string (str_index regex pos)) (pos + 1))
        = slice regex s (pos + 1 + (4 - (i + 1)))"
    proof (rule 1(1) [OF True])
      show "unicode @ to_string (str_index regex pos) = slice regex s (pos + 1)"
        using l "1.prems" by (simp add: str_index_to_string slice_snoc)
      show "s \<le> pos + 1" using "1.prems" by simp
      show "pos + 1 + (4 - (i + 1)) \<le> length regex" using "1.prems" ar by simp
    qed
    then show ?thesis by (simp only: step ar)
  next
    case False
    then have "parseUnicodeEscape_loop regex i unicode pos = (unicode, pos)"
      by (subst parseUnicodeEscape_loop.simps) simp
    then show ?thesis using "1.prems" False by simp
  qed
qed

lemma parseHexEscape_loop_slice:
  "hex = slice regex s pos \<Longrightarrow> s \<le> pos \<Longrightarrow> pos + (2 - i) \<le> length regex \<Longrightarrow>
    fst (parseHexEscape_loop regex i hex pos) = slice regex s (pos + (2 - i))"
proof (induction regex i hex pos rule: parseHexEscape_loop.induct)
  case (1 regex i hex pos)
  show ?case
  proof (cases "i < 2")
    case True
    with "1.prems" have l: "pos < length regex" by simp
    have step: "parseHexEscape_loop regex i hex pos
        = parseHexEscape_loop regex (i + 1) (hex @ to_string (str_index regex pos)) (pos + 1)"
      using True by (subst parseHexEscape_loop.simps) simp
    have ar: "pos + 1 + (2 - (i + 1)) = pos + (2 - i)" using True by simp
    have "fst (parseHexEscape_loop regex (i + 1) (hex @ to_string (str_index regex pos)) (pos + 1))
        = slice regex s (pos + 1 + (2 - (i + 1)))"
    proof (rule 1(1) [OF True])
      show "hex @ to_string (str_index regex pos) = slice regex s (pos + 1)"
        using l "1.prems" by (simp add: str_index_to_string slice_snoc)
      show "s \<le> pos + 1" using "1.prems" by simp
      show "pos + 1 + (2 - (i + 1)) \<le> length regex" using "1.prems" ar by simp
    qed
    then show ?thesis by (simp only: step ar)
  next
    case False
    then have "parseHexEscape_loop regex i hex pos = (hex, pos)"
      by (subst parseHexEscape_loop.simps) simp
    then show ?thesis using "1.prems" False by simp
  qed
qed

lemma parseUnicodeEscape_text:
  assumes "p + 1 < length regex" and "regex ! p = backslash" and "regex ! (p + 1) = CHR ''u''"
  shows "text_ok regex (fst (parseUnicodeEscape regex (p + 1)))"
proof -
  obtain unicode pos2 where a:
      "parseUnicodeEscape_loop regex 0 [backslash, CHR ''u''] (p + 2) = (unicode, pos2)"
    by (cases "parseUnicodeEscape_loop regex 0 [backslash, CHR ''u''] (p + 2)")
  have p2: "pos2 = p + 6"
    using parseUnicodeEscape_loop_snd [of regex 0 "[backslash, CHR ''u'']" "p + 2"] a by simp
  have t: "fst (parseUnicodeEscape regex (p + 1)) = createToken UNICODE_ESCAPE unicode pos2"
    using a by (simp add: parseUnicodeEscape_def Let_def numeral_2_eq_2)
  show ?thesis
  proof (cases "p + 6 \<le> length regex")
    case True
    have ar: "p + 2 + (4 - 0) = p + 6" by simp
    have "[backslash, CHR ''u''] = slice regex p (p + 2)"
      using slice_two [OF assms(1)] assms(2,3) by simp
    then have "fst (parseUnicodeEscape_loop regex 0 [backslash, CHR ''u''] (p + 2))
        = slice regex p (p + 2 + (4 - 0))"
      using True by (intro parseUnicodeEscape_loop_slice) simp_all
    then have "unicode = slice regex p (p + 6)"
      by (simp only: a fst_conv ar)
    then show ?thesis unfolding t p2
      using True by (intro text_ok_at [where i = p and j = "p + 6"])
        (simp_all add: span_end_def span_length_def)
  next
    case False
    then show ?thesis unfolding t p2
      by (simp add: text_ok_def text_stated_def createToken_def)
  qed
qed

lemma parseHexEscape_text:
  assumes "p + 1 < length regex" and "regex ! p = backslash" and "regex ! (p + 1) = CHR ''x''"
  shows "text_ok regex (fst (parseHexEscape regex (p + 1)))"
proof -
  obtain hex pos2 where a:
      "parseHexEscape_loop regex 0 [backslash, CHR ''x''] (p + 2) = (hex, pos2)"
    by (cases "parseHexEscape_loop regex 0 [backslash, CHR ''x''] (p + 2)")
  have p2: "pos2 = p + 4"
    using parseHexEscape_loop_snd [of regex 0 "[backslash, CHR ''x'']" "p + 2"] a by simp
  have t: "fst (parseHexEscape regex (p + 1)) = createToken HEX_ESCAPE hex pos2"
    using a by (simp add: parseHexEscape_def Let_def numeral_2_eq_2)
  show ?thesis
  proof (cases "p + 4 \<le> length regex")
    case True
    have ar: "p + 2 + (2 - 0) = p + 4" by simp
    have "[backslash, CHR ''x''] = slice regex p (p + 2)"
      using slice_two [OF assms(1)] assms(2,3) by simp
    then have "fst (parseHexEscape_loop regex 0 [backslash, CHR ''x''] (p + 2))
        = slice regex p (p + 2 + (2 - 0))"
      using True by (intro parseHexEscape_loop_slice) simp_all
    then have "hex = slice regex p (p + 4)"
      by (simp only: a fst_conv ar)
    then show ?thesis unfolding t p2
      using True by (intro text_ok_at [where i = p and j = "p + 4"])
        (simp_all add: span_end_def span_length_def)
  next
    case False
    then show ?thesis unfolding t p2
      by (simp add: text_ok_def text_stated_def createToken_def)
  qed
qed

lemma test_digit_undefined: "\<not> test_digit (to_string None)"
  by (simp add: test_digit_def to_string_def isDigit_def)

lemma parseEscape_text:
  assumes "pos < length regex" and "regex ! pos = backslash"
  shows "text_ok regex (fst (parseEscape regex pos))"
proof (cases "pos + 1 < length regex")
  case True
  have two: "[backslash, regex ! (pos + 1)] = slice regex pos (pos + 2)"
    using slice_two [OF True] assms(2) by simp
  have e: "str_index regex (pos + 1) = Some (regex ! (pos + 1))"
    using True by (simp add: str_index_def)
  have b: "text_ok regex (fst (parseBackreference regex (pos + 1)))"
  proof -
    have "fst (parseBackreference regex (pos + 1))
        = createToken BACKREFERENCE [backslash, regex ! (pos + 1)] (pos + 1 + 1)"
      using e by (simp add: parseBackreference_def Let_def to_string_def)
    moreover have "text_ok regex (createToken BACKREFERENCE [backslash, regex ! (pos + 1)] (pos + 1 + 1))"
      using two True by (intro text_ok_at [where i = pos and j = "pos + 2"])
        (simp_all add: span_end_def span_length_def)
    ultimately show ?thesis by simp
  qed
  have g: "text_ok regex (createToken ESCAPE ([backslash] @ to_string (str_index regex (pos + 1))) (pos + 1))"
  proof -
    have "text_ok regex (createToken ESCAPE [backslash, regex ! (pos + 1)] (pos + 1))"
      using two True by (intro text_ok_at [where i = pos and j = "pos + 2"])
        (simp_all add: span_end_def span_length_def)
    then show ?thesis using e by (simp add: to_string_def)
  qed
  have u: "regex ! (pos + 1) = CHR ''u'' \<Longrightarrow> text_ok regex (fst (parseUnicodeEscape regex (pos + 1)))"
    using parseUnicodeEscape_text [OF True assms(2)] .
  have h: "regex ! (pos + 1) = CHR ''x'' \<Longrightarrow> text_ok regex (fst (parseHexEscape regex (pos + 1)))"
    using parseHexEscape_text [OF True assms(2)] .
  show ?thesis
    using b g u h e by (simp add: parseEscape_def Let_def)
next
  case False
  then have e: "str_index regex (pos + 1) = None"
    by (simp add: str_index_def)
  have "fst (parseEscape regex pos)
      = createToken ESCAPE ([backslash] @ to_string None) (pos + 1)"
    using e test_digit_undefined by (simp add: parseEscape_def Let_def)
  then show ?thesis
    using False by (simp add: text_ok_def text_stated_def createToken_def)
qed

subsection \<open>tokenizeGroupContent\<close>

lemma tokenizeGroupContent_body_text:
  assumes "pos < length regex"
  shows "list_all (text_ok regex) (fst (tokenizeGroupContent_body regex pos))"
  using parseRange_text [OF assms] parseQuantifier_text [of regex pos] parseEscape_text [OF assms]
    text_ok_char [OF assms, of ANCHOR] text_ok_char [OF assms, of META_CHAR]
    text_ok_char [OF assms, of PIPE] text_ok_char [OF assms, of CHAR_T]
  by (auto simp: tokenizeGroupContent_body_def Let_def split: prod.splits)

lemma tokenizeGroupContent_loop_text:
  "list_all (text_ok regex) tokens
    \<Longrightarrow> list_all (text_ok regex) (fst (tokenizeGroupContent_loop regex tokens pos))"
proof (induction regex tokens pos rule: tokenizeGroupContent_loop.induct)
  case (1 regex tokens pos)
  show ?case
  proof (cases "pos < length regex \<and> str_index regex pos \<noteq> Some (CHR '')'')")
    case True
    obtain ts pos' where b: "tokenizeGroupContent_body regex pos = (ts, pos')"
      by (cases "tokenizeGroupContent_body regex pos")
    have "list_all (text_ok regex) ts"
      using tokenizeGroupContent_body_text [of pos regex] True b by simp
    with "1.prems" have "list_all (text_ok regex) (tokens @ ts)" by simp
    then have "list_all (text_ok regex) (fst (tokenizeGroupContent_loop regex (tokens @ ts) pos'))"
      using 1(1) [OF True b [symmetric]] by simp
    moreover have "tokenizeGroupContent_loop regex tokens pos
        = tokenizeGroupContent_loop regex (tokens @ ts) pos'"
      using True b by (subst tokenizeGroupContent_loop.simps) simp
    ultimately show ?thesis by simp
  next
    case False
    then show ?thesis using "1.prems" by (subst tokenizeGroupContent_loop.simps) auto
  qed
qed

lemma tokenizeGroupContent_text:
  "list_all (text_ok regex) (fst (tokenizeGroupContent regex pos))"
  unfolding tokenizeGroupContent_def by (rule tokenizeGroupContent_loop_text) simp

subsection \<open>parseGroup\<close>

lemma parseGroup_loop_text:
  "list_all (text_ok regex) tokens
    \<Longrightarrow> list_all (text_ok regex) (fst (parseGroup_loop regex tokens pos))"
proof (induction regex tokens pos rule: parseGroup_loop.induct)
  case (1 regex tokens pos)
  show ?case
  proof (cases "str_index regex pos \<noteq> Some (CHR '')'') \<and> pos < length regex")
    case True
    obtain ts pos' where b: "tokenizeGroupContent regex pos = (ts, pos')"
      by (cases "tokenizeGroupContent regex pos")
    have "list_all (text_ok regex) ts"
      using tokenizeGroupContent_text [of regex pos] b by simp
    with "1.prems" have "list_all (text_ok regex) (tokens @ ts)" by simp
    then have "list_all (text_ok regex) (fst (parseGroup_loop regex (tokens @ ts) pos'))"
      using 1(1) [OF True b [symmetric]] by simp
    moreover have "parseGroup_loop regex tokens pos = parseGroup_loop regex (tokens @ ts) pos'"
      using True b by (subst parseGroup_loop.simps) simp
    ultimately show ?thesis by simp
  next
    case False
    then show ?thesis using "1.prems" by (subst parseGroup_loop.simps) auto
  qed
qed

lemma parseGroup_prefix_text:
  assumes "pos < length regex" and "regex ! pos = CHR ''(''" and "list_all (text_ok regex) tokens"
  shows "list_all (text_ok regex) (fst (parseGroup_prefix regex tokens (pos + 1)))"
proof -
  have la: "text_ok regex (createToken LOOKAHEAD ''(?='' (pos + 1 + 1))"
    if "str_index regex (pos + 1) = Some (CHR ''?'')" "str_index regex (pos + 1 + 1) = Some (CHR ''='')"
  proof -
    from that have l: "pos + 2 < length regex" and q: "regex ! (pos + 1) = CHR ''?''"
      and e: "regex ! (pos + 2) = CHR ''=''"
      by (simp_all add: str_index_Some numeral_2_eq_2)
    have "''(?='' = slice regex pos (pos + 3)"
      using slice_three [OF l] assms(2) q e by simp
    then show ?thesis
      using l by (intro text_ok_at [where i = pos and j = "pos + 3"])
        (simp_all add: span_end_def span_length_def)
  qed
  have nl: "text_ok regex (createToken NEG_LOOKAHEAD ''(?!)'' (pos + 1 + 1))"
    by (simp add: text_ok_def text_stated_def createToken_def)
  show ?thesis
    using la nl assms(3) by (simp add: parseGroup_prefix_def Let_def)
qed

lemma parseGroup_text:
  assumes "pos < length regex" and "regex ! pos = CHR ''(''"
  shows "list_all (text_ok regex) (fst (parseGroup regex pos))"
proof -
  obtain tokens1 pos2 where a: "parseGroup_prefix regex [createToken GROUP_OPEN ''('' pos] (pos + 1) = (tokens1, pos2)"
    by (cases "parseGroup_prefix regex [createToken GROUP_OPEN ''('' pos] (pos + 1)")
  obtain tokens2 pos3 where b: "parseGroup_loop regex tokens1 pos2 = (tokens2, pos3)"
    by (cases "parseGroup_loop regex tokens1 pos2")
  have "text_ok regex (createToken GROUP_OPEN ''('' pos)"
    using text_ok_char [OF assms(1), of GROUP_OPEN] assms(2) by simp
  then have "list_all (text_ok regex) tokens1"
    using parseGroup_prefix_text [OF assms, of "[createToken GROUP_OPEN ''('' pos]"] a by simp
  then have 1: "list_all (text_ok regex) tokens2"
    using parseGroup_loop_text [of regex tokens1 pos2] b by simp
  have 2: "text_ok regex (createToken GROUP_CLOSE '')'' pos3)"
  proof (cases "pos3 < length regex")
    case True
    then have "regex ! pos3 = CHR '')''"
      using parseGroup_loop_exit [of regex tokens1 pos2] b by (simp add: str_index_def)
    then show ?thesis using text_ok_char [OF True, of GROUP_CLOSE] by simp
  next
    case False
    then show ?thesis by (simp add: text_ok_def text_stated_def createToken_def)
  qed
  have "fst (parseGroup regex pos) = tokens2 @ [createToken GROUP_CLOSE '')'' pos3]"
    using a b by (simp add: parseGroup_def Let_def)
  with 1 2 show ?thesis by simp
qed

subsection \<open>tokenize\<close>

lemma tokenize_body_text:
  assumes "pos < length regex"
  shows "list_all (text_ok regex) (fst (tokenize_body regex pos))"
  using parseRange_text [OF assms] parseQuantifier_text [of regex pos] parseEscape_text [OF assms]
    parseGroup_text [OF assms] text_ok_char [OF assms, of ANCHOR]
    text_ok_char [OF assms, of META_CHAR] text_ok_char [OF assms, of PIPE]
    text_ok_char [OF assms, of CHAR_T]
  by (auto simp: tokenize_body_def Let_def split: prod.splits)

lemma tokenize_text:
  assumes "tokenize regex pos = Some (toks, p)"
  shows "list_all (text_ok regex) toks"
proof -
  have "\<exists>toks p. tokenize_loop regex [] pos = Some (toks, p)
      \<and> list_all (text_ok regex) toks \<and> length regex \<le> p"
  proof (rule tokenize_loop_rule [where I = "\<lambda>tokens p. list_all (text_ok regex) tokens"])
    show "list_all (text_ok regex) []" by simp
  next
    fix tokens :: "Token list" and q
    assume "list_all (text_ok regex) tokens" and "q < length regex"
    then show "list_all (text_ok regex) (tokens @ fst (tokenize_body regex q))"
      using tokenize_body_text [of q regex] by simp
  qed
  with assms show ?thesis by (auto simp: tokenize_def)
qed

section \<open>Claims\<close>

text \<open>C1: on the input (?:a) the tokens are \<open>GROUP_OPEN\<close>, \<open>CHAR_T\<close> for the colon,
  \<open>CHAR_T\<close> for a, and \<open>GROUP_CLOSE\<close>; their texts in sequence order make (:a), and the
  question mark of the input is in no token's text.\<close>

theorem noncapturing_question_mark_dropped:
  "tokenize ''(?:a)'' 0
     = Some ([createToken GROUP_OPEN ''('' 0, createToken CHAR_T '':'' 2,
              createToken CHAR_T ''a'' 3, createToken GROUP_CLOSE '')'' 4], 5)
   \<and> concat (map value [createToken GROUP_OPEN ''('' 0, createToken CHAR_T '':'' 2,
              createToken CHAR_T ''a'' 3, createToken GROUP_CLOSE '')'' 4]) = ''(:a)''
   \<and> CHR ''?'' \<in> set ''(?:a)''
   \<and> CHR ''?'' \<notin> set (concat (map value [createToken GROUP_OPEN ''('' 0,
              createToken CHAR_T '':'' 2, createToken CHAR_T ''a'' 3,
              createToken GROUP_CLOSE '')'' 4]))"
proof -
  have "tokenize ''(?:a)'' 0
     = Some ([createToken GROUP_OPEN ''('' 0, createToken CHAR_T '':'' 2,
              createToken CHAR_T ''a'' 3, createToken GROUP_CLOSE '')'' 4], 5)"
    by code_simp
  then show ?thesis by (simp add: createToken_def)
qed

text \<open>C2, as the claim states it, fails. Where a scan runs beyond the end of the input
  its token still gets a text: on \<open>{1\<close> the \<open>QUANTIFIER\<close> text is \<open>1}\<close>, on \<open>(a\<close>
  there is a \<open>GROUP_CLOSE\<close> token, on \<open>[a\<close> a \<open>RANGE_CLOSE\<close> token, and a backslash at
  the end, or followed by u1 or x1, gives a text that holds the word undefined; none of
  these texts occurs in its input. On \<open>(?!a)\<close> the \<open>NEG_LOOKAHEAD\<close> text is \<open>(?!)\<close>,
  which does not occur in the input. On \<open>a{12}\<close> the quantifier scan goes from index 1
  to index 5, where the input has \<open>{12}\<close>, and the text is \<open>12}\<close>, without the
  brace.\<close>

theorem token_text_not_substring:
  "tokenize ''{1'' 0 = Some ([createToken QUANTIFIER ''1}'' 3], 3)
   \<and> \<not> sublist (value (createToken QUANTIFIER ''1}'' 3)) ''{1''
   \<and> tokenize ''(?!a)'' 0
       = Some ([createToken GROUP_OPEN ''('' 0, createToken NEG_LOOKAHEAD ''(?!)'' 2,
                createToken CHAR_T ''a'' 3, createToken GROUP_CLOSE '')'' 4], 5)
   \<and> \<not> sublist (value (createToken NEG_LOOKAHEAD ''(?!)'' 2)) ''(?!a)''
   \<and> tokenize ''a{12}'' 0
       = Some ([createToken CHAR_T ''a'' 0, createToken QUANTIFIER ''12}'' 5], 5)
   \<and> parseQuantifier ''a{12}'' 1 = (createToken QUANTIFIER ''12}'' 5, 5)
   \<and> slice ''a{12}'' 1 5 = ''{12}''
   \<and> value (createToken QUANTIFIER ''12}'' 5) \<noteq> slice ''a{12}'' 1 5
   \<and> tokenize ''(a'' 0
       = Some ([createToken GROUP_OPEN ''('' 0, createToken CHAR_T ''a'' 1,
                createToken GROUP_CLOSE '')'' 2], 3)
   \<and> \<not> sublist (value (createToken GROUP_CLOSE '')'' 2)) ''(a''
   \<and> tokenize ''[a'' 0
       = Some ([createToken RANGE_OPEN ''['' 0, createToken CHAR_T ''a'' 1,
                createToken RANGE_CLOSE '']'' 2], 3)
   \<and> \<not> sublist (value (createToken RANGE_CLOSE '']'' 2)) ''[a''
   \<and> tokenize [backslash] 0
       = Some ([createToken ESCAPE (backslash # ''undefined'') 1], 2)
   \<and> \<not> sublist (value (createToken ESCAPE (backslash # ''undefined'') 1)) [backslash]
   \<and> tokenize [backslash, CHR ''u'', CHR ''1''] 0
       = Some ([createToken UNICODE_ESCAPE
                  (backslash # ''u1undefinedundefinedundefined'') 6], 6)
   \<and> \<not> sublist (value (createToken UNICODE_ESCAPE
                  (backslash # ''u1undefinedundefinedundefined'') 6))
          [backslash, CHR ''u'', CHR ''1'']
   \<and> tokenize [backslash, CHR ''x'', CHR ''1''] 0
       = Some ([createToken HEX_ESCAPE (backslash # ''x1undefined'') 4], 4)
   \<and> \<not> sublist (value (createToken HEX_ESCAPE (backslash # ''x1undefined'') 4))
          [backslash, CHR ''x'', CHR ''1'']"
proof -
  have 1: "tokenize ''{1'' 0 = Some ([createToken QUANTIFIER ''1}'' 3], 3)"
    by code_simp
  have 2: "\<not> sublist (value (createToken QUANTIFIER ''1}'' 3)) ''{1''"
    by code_simp
  have 3: "tokenize ''(?!a)'' 0
       = Some ([createToken GROUP_OPEN ''('' 0, createToken NEG_LOOKAHEAD ''(?!)'' 2,
                createToken CHAR_T ''a'' 3, createToken GROUP_CLOSE '')'' 4], 5)"
    by code_simp
  have 4: "\<not> sublist (value (createToken NEG_LOOKAHEAD ''(?!)'' 2)) ''(?!a)''"
    by code_simp
  have 5: "tokenize ''a{12}'' 0
       = Some ([createToken CHAR_T ''a'' 0, createToken QUANTIFIER ''12}'' 5], 5)"
    by code_simp
  have 6: "parseQuantifier ''a{12}'' 1 = (createToken QUANTIFIER ''12}'' 5, 5)"
    by code_simp
  have 7: "slice ''a{12}'' 1 5 = ''{12}''"
    by code_simp
  have 8: "value (createToken QUANTIFIER ''12}'' 5) \<noteq> slice ''a{12}'' 1 5"
    by code_simp
  have 9: "tokenize ''(a'' 0
       = Some ([createToken GROUP_OPEN ''('' 0, createToken CHAR_T ''a'' 1,
                createToken GROUP_CLOSE '')'' 2], 3)"
    by code_simp
  have 10: "\<not> sublist (value (createToken GROUP_CLOSE '')'' 2)) ''(a''"
    by code_simp
  have 11: "tokenize ''[a'' 0
       = Some ([createToken RANGE_OPEN ''['' 0, createToken CHAR_T ''a'' 1,
                createToken RANGE_CLOSE '']'' 2], 3)"
    by code_simp
  have 12: "\<not> sublist (value (createToken RANGE_CLOSE '']'' 2)) ''[a''"
    by code_simp
  have 13: "tokenize [backslash] 0
       = Some ([createToken ESCAPE (backslash # ''undefined'') 1], 2)"
    by code_simp
  have 14: "\<not> sublist (value (createToken ESCAPE (backslash # ''undefined'') 1)) [backslash]"
    by code_simp
  have 15: "tokenize [backslash, CHR ''u'', CHR ''1''] 0
       = Some ([createToken UNICODE_ESCAPE
                  (backslash # ''u1undefinedundefinedundefined'') 6], 6)"
    by code_simp
  have 16: "\<not> sublist (value (createToken UNICODE_ESCAPE
                  (backslash # ''u1undefinedundefinedundefined'') 6))
          [backslash, CHR ''u'', CHR ''1'']"
    by code_simp
  have 17: "tokenize [backslash, CHR ''x'', CHR ''1''] 0
       = Some ([createToken HEX_ESCAPE (backslash # ''x1undefined'') 4], 4)"
    by code_simp
  have 18: "\<not> sublist (value (createToken HEX_ESCAPE (backslash # ''x1undefined'') 4))
          [backslash, CHR ''x'', CHR ''1'']"
    by code_simp
  from 1 2 3 4 5 6 7 8 9 show ?thesis
    using 10 11 12 13 14 15 16 17 18 by simp
qed

text \<open>C2, as the code has it: the text of a token that \<^verbatim>\<open>tokenize\<close> returns is exactly
  the piece of the input that the token stands for, with its syntax characters,
  whenever the token is not a \<open>QUANTIFIER\<close> or a \<open>NEG_LOOKAHEAD\<close> and its scan did not
  read beyond the end of the input. That piece is: for \<open>CHAR_T\<close>, \<open>META_CHAR\<close>,
  \<open>ANCHOR\<close>, \<open>PIPE\<close>, \<open>GROUP_OPEN\<close>, \<open>RANGE_OPEN\<close>, \<open>GROUP_CLOSE\<close> and \<open>RANGE_CLOSE\<close>
  the one character at the position of the token; for \<open>LOOKAHEAD\<close> the three
  characters that end at the position; for \<open>ESCAPE\<close> the two characters that end at
  the position; for \<open>BACKREFERENCE\<close>, \<open>UNICODE_ESCAPE\<close> and \<open>HEX_ESCAPE\<close> the two, six
  and four characters before the position. A scan stays in range always for the first
  six kinds, \<open>LOOKAHEAD\<close> and \<open>BACKREFERENCE\<close>; for \<open>GROUP_CLOSE\<close>, \<open>RANGE_CLOSE\<close> and
  \<open>ESCAPE\<close> when the position is below the length of the input; for \<open>UNICODE_ESCAPE\<close>
  and \<open>HEX_ESCAPE\<close> when it is at most the length.\<close>

theorem token_text_exact:
  "tokenize regex pos = Some (toks, p) \<Longrightarrow> t \<in> set toks \<Longrightarrow> text_stated regex t
    \<Longrightarrow> span_length (type t) \<le> span_end (type t) (position t)
      \<and> span_end (type t) (position t) \<le> length regex
      \<and> value t = slice regex (span_end (type t) (position t) - span_length (type t))
                    (span_end (type t) (position t))
      \<and> length (value t) = span_length (type t)
      \<and> sublist (value t) regex"
proof -
  assume "tokenize regex pos = Some (toks, p)" and "t \<in> set toks" and s: "text_stated regex t"
  then have "text_ok regex t"
    using tokenize_text [of regex pos toks p] by (simp add: list_all_iff)
  with s have e: "span_length (type t) \<le> span_end (type t) (position t)"
      "span_end (type t) (position t) \<le> length regex"
      "value t = slice regex (span_end (type t) (position t) - span_length (type t))
                    (span_end (type t) (position t))"
    by (simp_all add: text_ok_def text_exact_def)
  from e have "length (value t) = span_length (type t)"
    by (simp add: slice_def)
  moreover have "sublist (value t) regex"
    using e(3) sublist_slice [of regex] by simp
  ultimately show ?thesis using e by simp
qed

theorem token_text_exact_witness:
  "tokenize [CHR ''a'', backslash, CHR ''u'', CHR ''0'', CHR ''0'', CHR ''4'', CHR ''1''] 0
     = Some ([createToken CHAR_T ''a'' 0,
              createToken UNICODE_ESCAPE (backslash # ''u0041'') 7], 7)
   \<and> createToken UNICODE_ESCAPE (backslash # ''u0041'') 7
       \<in> set [createToken CHAR_T ''a'' 0,
              createToken UNICODE_ESCAPE (backslash # ''u0041'') 7]
   \<and> text_stated [CHR ''a'', backslash, CHR ''u'', CHR ''0'', CHR ''0'', CHR ''4'', CHR ''1'']
        (createToken UNICODE_ESCAPE (backslash # ''u0041'') 7)
   \<and> value (createToken UNICODE_ESCAPE (backslash # ''u0041'') 7)
       = slice [CHR ''a'', backslash, CHR ''u'', CHR ''0'', CHR ''0'', CHR ''4'', CHR ''1''] 1 7
   \<and> length (value (createToken UNICODE_ESCAPE (backslash # ''u0041'') 7)) = 6"
proof -
  have h: "tokenize [CHR ''a'', backslash, CHR ''u'', CHR ''0'', CHR ''0'', CHR ''4'', CHR ''1''] 0
     = Some ([createToken CHAR_T ''a'' 0,
              createToken UNICODE_ESCAPE (backslash # ''u0041'') 7], 7)"
    by code_simp
  have m: "createToken UNICODE_ESCAPE (backslash # ''u0041'') 7
       \<in> set [createToken CHAR_T ''a'' 0,
              createToken UNICODE_ESCAPE (backslash # ''u0041'') 7]"
    by simp
  have r: "text_stated [CHR ''a'', backslash, CHR ''u'', CHR ''0'', CHR ''0'', CHR ''4'', CHR ''1'']
        (createToken UNICODE_ESCAPE (backslash # ''u0041'') 7)"
    by (simp add: text_stated_def createToken_def)
  from token_text_exact [OF h m r] h m r show ?thesis
    by (simp add: span_end_def span_length_def createToken_def)
qed




text \<open>C4: \<^verbatim>\<open>tokenize\<close> comes to an end on every input string and from every cursor,
  with the cursor at or beyond the length and not below where it started; one round of
  the top-level loop leaves the cursor strictly greater, as does every scan it
  delegates to; and the loop runs a round exactly when the cursor is below the length
  of the input.\<close>

theorem tokenize_terminates:
  "(\<exists>toks p. tokenize regex pos = Some (toks, p) \<and> pos \<le> p \<and> length regex \<le> p)
   \<and> pos < snd (tokenize_body regex pos)
   \<and> pos < snd (parseGroup regex pos)
   \<and> pos < snd (parseRange regex pos)
   \<and> pos < snd (parseQuantifier regex pos)
   \<and> pos < snd (parseEscape regex pos)
   \<and> pos \<le> snd (tokenizeGroupContent regex pos)
   \<and> tokenize_loop regex tokens pos
       = (if pos < length regex
          then tokenize_loop regex (tokens @ fst (tokenize_body regex pos))
                 (snd (tokenize_body regex pos))
          else Some (tokens, pos))"
proof -
  have "tokenize_loop regex tokens pos
       = (if pos < length regex
          then tokenize_loop regex (tokens @ fst (tokenize_body regex pos))
                 (snd (tokenize_body regex pos))
          else Some (tokens, pos))"
    by (subst tokenize_loop.simps) (simp split: prod.splits)
  then show ?thesis
    using tokenize_returns [of regex pos] tokenize_body_advances [of pos regex]
      parseGroup_advances [of pos regex] parseRange_advances [of pos regex]
      parseQuantifier_advances [of pos regex] parseEscape_advances [of pos regex]
      tokenizeGroupContent_loop_mono [of pos regex "[]"]
    unfolding tokenizeGroupContent_def by blast
qed

text \<open>C5: inside a group an opening parenthesis has no branch of its own and gives one
  \<open>CHAR_T\<close> token; no token of the group content has a kind of the group scan
  (\<open>GROUP_OPEN\<close>, \<open>GROUP_CLOSE\<close>, \<open>LOOKAHEAD\<close>, \<open>NEG_LOOKAHEAD\<close>); and
  \<^verbatim>\<open>tokenize("(a|b)")\<close> is the flat sequence \<open>GROUP_OPEN\<close>, \<open>CHAR_T a\<close>, \<open>PIPE\<close>,
  \<open>CHAR_T b\<close>, \<open>GROUP_CLOSE\<close>.\<close>

theorem group_content_flat:
  "(pos < length regex \<and> regex ! pos = CHR ''('' \<longrightarrow>
      tokenizeGroupContent_body regex pos = ([createToken CHAR_T ''('' pos], pos + 1))
   \<and> list_all (\<lambda>t. \<not> group_kind (type t)) (fst (tokenizeGroupContent regex pos))
   \<and> tokenize ''(a|b)'' 0
       = Some ([createToken GROUP_OPEN ''('' 0, createToken CHAR_T ''a'' 1,
                createToken PIPE ''|'' 2, createToken CHAR_T ''b'' 3,
                createToken GROUP_CLOSE '')'' 4], 5)
   \<and> tokenize ''(a(b)c)'' 0
       = Some ([createToken GROUP_OPEN ''('' 0, createToken CHAR_T ''a'' 1,
                createToken CHAR_T ''('' 2, createToken CHAR_T ''b'' 3,
                createToken GROUP_CLOSE '')'' 4, createToken CHAR_T ''c'' 5,
                createToken CHAR_T '')'' 6], 7)"
proof -
  have "tokenize ''(a|b)'' 0
       = Some ([createToken GROUP_OPEN ''('' 0, createToken CHAR_T ''a'' 1,
                createToken PIPE ''|'' 2, createToken CHAR_T ''b'' 3,
                createToken GROUP_CLOSE '')'' 4], 5)"
    by code_simp
  moreover have "tokenize ''(a(b)c)'' 0
       = Some ([createToken GROUP_OPEN ''('' 0, createToken CHAR_T ''a'' 1,
                createToken CHAR_T ''('' 2, createToken CHAR_T ''b'' 3,
                createToken GROUP_CLOSE '')'' 4, createToken CHAR_T ''c'' 5,
                createToken CHAR_T '')'' 6], 7)"
    by code_simp
  ultimately show ?thesis
    using tokenizeGroupContent_body_paren [of regex pos] tokenizeGroupContent_kinds [of regex pos]
    by blast
qed

theorem group_content_flat_witness:
  "1 < length ''((x'' \<and> ''((x'' ! 1 = CHR ''(''
   \<and> tokenizeGroupContent_body ''((x'' 1 = ([createToken CHAR_T ''('' 1], 2)
   \<and> list_all (\<lambda>t. \<not> group_kind (type t)) (fst (tokenizeGroupContent ''((x'' 1))"
  using group_content_flat [of 1 "''((x''"] by simp

text \<open>C6: when the character after the opening parenthesis of a group is a question mark
  and the next one an equals sign, the group scan gives a \<open>LOOKAHEAD\<close> token with text
  \<open>(?=\<close> right after the \<open>GROUP_OPEN\<close> token and before every other token; when the
  next one is an exclamation mark, it gives a \<open>NEG_LOOKAHEAD\<close> token with the text
  \<open>(?!)\<close>, whatever the group holds.\<close>

theorem group_lookahead_tokens:
  "(str_index regex (pos + 1) = Some (CHR ''?'') \<and> str_index regex (pos + 2) = Some (CHR ''='')
       \<longrightarrow> (\<exists>rest. fst (parseGroup regex pos)
              = createToken GROUP_OPEN ''('' pos # createToken LOOKAHEAD ''(?='' (pos + 2) # rest))
   \<and> (str_index regex (pos + 1) = Some (CHR ''?'') \<and> str_index regex (pos + 2) = Some (CHR ''!'')
       \<longrightarrow> (\<exists>rest. fst (parseGroup regex pos)
              = createToken GROUP_OPEN ''('' pos # createToken NEG_LOOKAHEAD ''(?!)'' (pos + 2) # rest))
   \<and> tokenize ''(?=a)'' 0
       = Some ([createToken GROUP_OPEN ''('' 0, createToken LOOKAHEAD ''(?='' 2,
                createToken CHAR_T ''a'' 3, createToken GROUP_CLOSE '')'' 4], 5)
   \<and> tokenize ''(?!ab)'' 0
       = Some ([createToken GROUP_OPEN ''('' 0, createToken NEG_LOOKAHEAD ''(?!)'' 2,
                createToken CHAR_T ''a'' 3, createToken CHAR_T ''b'' 4,
                createToken GROUP_CLOSE '')'' 5], 6)"
proof -
  have 1: "\<exists>rest. fst (parseGroup regex pos)
              = createToken GROUP_OPEN ''('' pos # createToken LOOKAHEAD ''(?='' (pos + 2) # rest"
    if "str_index regex (pos + 1) = Some (CHR ''?'')" "str_index regex (pos + 2) = Some (CHR ''='')"
  proof -
    have "parseGroup_prefix regex [createToken GROUP_OPEN ''('' pos] (pos + 1)
        = ([createToken GROUP_OPEN ''('' pos] @ [createToken LOOKAHEAD ''(?='' (pos + 1 + 1)], pos + 1 + 2)"
      using that by (intro parseGroup_prefix_lookahead) (simp_all add: add.commute)
    from parseGroup_unfold [OF this] show ?thesis by (auto simp: numeral_2_eq_2)
  qed
  have 2: "\<exists>rest. fst (parseGroup regex pos)
              = createToken GROUP_OPEN ''('' pos # createToken NEG_LOOKAHEAD ''(?!)'' (pos + 2) # rest"
    if "str_index regex (pos + 1) = Some (CHR ''?'')" "str_index regex (pos + 2) = Some (CHR ''!'')"
  proof -
    have "parseGroup_prefix regex [createToken GROUP_OPEN ''('' pos] (pos + 1)
        = ([createToken GROUP_OPEN ''('' pos] @ [createToken NEG_LOOKAHEAD ''(?!)'' (pos + 1 + 1)], pos + 1 + 2)"
      using that by (intro parseGroup_prefix_neg_lookahead) (simp_all add: add.commute)
    from parseGroup_unfold [OF this] show ?thesis by (auto simp: numeral_2_eq_2)
  qed
  have 3: "tokenize ''(?=a)'' 0
       = Some ([createToken GROUP_OPEN ''('' 0, createToken LOOKAHEAD ''(?='' 2,
                createToken CHAR_T ''a'' 3, createToken GROUP_CLOSE '')'' 4], 5)"
    by code_simp
  have 4: "tokenize ''(?!ab)'' 0
       = Some ([createToken GROUP_OPEN ''('' 0, createToken NEG_LOOKAHEAD ''(?!)'' 2,
                createToken CHAR_T ''a'' 3, createToken CHAR_T ''b'' 4,
                createToken GROUP_CLOSE '')'' 5], 6)"
    by code_simp
  from 1 2 3 4 show ?thesis by blast
qed

theorem group_lookahead_tokens_witness:
  "str_index ''x(?=a)'' (1 + 1) = Some (CHR ''?'') \<and> str_index ''x(?=a)'' (1 + 2) = Some (CHR ''='')
   \<and> (\<exists>rest. fst (parseGroup ''x(?=a)'' 1)
          = createToken GROUP_OPEN ''('' 1 # createToken LOOKAHEAD ''(?='' (1 + 2) # rest)
   \<and> str_index ''(?!a)'' (0 + 1) = Some (CHR ''?'') \<and> str_index ''(?!a)'' (0 + 2) = Some (CHR ''!'')
   \<and> (\<exists>rest. fst (parseGroup ''(?!a)'' 0)
          = createToken GROUP_OPEN ''('' 0 # createToken NEG_LOOKAHEAD ''(?!)'' (0 + 2) # rest)"
proof -
  have a: "str_index ''x(?=a)'' (1 + 1) = Some (CHR ''?'') \<and> str_index ''x(?=a)'' (1 + 2) = Some (CHR ''='')"
    by (simp add: str_index_def)
  have b: "str_index ''(?!a)'' (0 + 1) = Some (CHR ''?'') \<and> str_index ''(?!a)'' (0 + 2) = Some (CHR ''!'')"
    by (simp add: str_index_def)
  from a b group_lookahead_tokens [of "''x(?=a)''" 1] group_lookahead_tokens [of "''(?!a)''" 0]
  show ?thesis by blast
qed

text \<open>C7: when the character after the opening parenthesis of a group is a question mark
  and the next one is a colon or a less-than sign, the group scan gives no \<open>LOOKAHEAD\<close>
  and no \<open>NEG_LOOKAHEAD\<close> token, and the token after \<open>GROUP_OPEN\<close> is a \<open>CHAR_T\<close> token
  for that colon or less-than sign; so the prefixes (?: and (?<= and (?<! get no token
  kind of their own.\<close>

theorem noncapturing_prefix_plain:
  "(str_index regex (pos + 1) = Some (CHR ''?'') \<and> str_index regex (pos + 2) = Some c
      \<and> (c = CHR '':'' \<or> c = CHR ''<'')
     \<longrightarrow> (\<exists>rest. fst (parseGroup regex pos)
            = createToken GROUP_OPEN ''('' pos # createToken CHAR_T [c] (pos + 2) # rest)
        \<and> list_all (\<lambda>t. \<not> lookahead_kind (type t)) (fst (parseGroup regex pos)))
   \<and> tokenize ''(?:a)'' 0
       = Some ([createToken GROUP_OPEN ''('' 0, createToken CHAR_T '':'' 2,
                createToken CHAR_T ''a'' 3, createToken GROUP_CLOSE '')'' 4], 5)
   \<and> tokenize ''(?<=a)'' 0
       = Some ([createToken GROUP_OPEN ''('' 0, createToken CHAR_T ''<'' 2,
                createToken CHAR_T ''='' 3, createToken CHAR_T ''a'' 4,
                createToken GROUP_CLOSE '')'' 5], 6)
   \<and> tokenize ''(?<!a)'' 0
       = Some ([createToken GROUP_OPEN ''('' 0, createToken CHAR_T ''<'' 2,
                createToken CHAR_T ''!'' 3, createToken CHAR_T ''a'' 4,
                createToken GROUP_CLOSE '')'' 5], 6)"
proof -
  have 1: "(\<exists>rest. fst (parseGroup regex pos)
            = createToken GROUP_OPEN ''('' pos # createToken CHAR_T [c] (pos + 2) # rest)
        \<and> list_all (\<lambda>t. \<not> lookahead_kind (type t)) (fst (parseGroup regex pos))"
    if q: "str_index regex (pos + 1) = Some (CHR ''?'')" and c: "str_index regex (pos + 2) = Some c"
      and k: "c = CHR '':'' \<or> c = CHR ''<''"
  proof -
    have c': "str_index regex (pos + 1 + 1) = Some c"
      using c by (simp add: numeral_2_eq_2)
    have "str_index regex (pos + 1 + 1) \<noteq> Some (CHR ''='')"
      and "str_index regex (pos + 1 + 1) \<noteq> Some (CHR ''!'')"
      using c' k by auto
    then have p: "parseGroup_prefix regex [createToken GROUP_OPEN ''('' pos] (pos + 1)
        = ([createToken GROUP_OPEN ''('' pos], pos + 1 + 1)"
      using q by (intro parseGroup_prefix_other)
    obtain r1 where "fst (parseGroup_loop regex [createToken GROUP_OPEN ''('' pos] (pos + 1 + 1))
        = [createToken GROUP_OPEN ''('' pos] @ createToken CHAR_T [c] (pos + 1 + 1) # r1"
      using parseGroup_loop_plain [OF c' k] by blast
    with parseGroup_unfold [OF p]
    have "\<exists>rest. fst (parseGroup regex pos)
            = createToken GROUP_OPEN ''('' pos # createToken CHAR_T [c] (pos + 2) # rest"
      by (simp add: numeral_2_eq_2)
    moreover have "list_all (\<lambda>t. \<not> lookahead_kind (type t)) (fst (parseGroup regex pos))"
      using c k by (intro parseGroup_no_lookahead) auto
    ultimately show ?thesis by blast
  qed
  have 2: "tokenize ''(?:a)'' 0
       = Some ([createToken GROUP_OPEN ''('' 0, createToken CHAR_T '':'' 2,
                createToken CHAR_T ''a'' 3, createToken GROUP_CLOSE '')'' 4], 5)"
    by code_simp
  have 3: "tokenize ''(?<=a)'' 0
       = Some ([createToken GROUP_OPEN ''('' 0, createToken CHAR_T ''<'' 2,
                createToken CHAR_T ''='' 3, createToken CHAR_T ''a'' 4,
                createToken GROUP_CLOSE '')'' 5], 6)"
    by code_simp
  have 4: "tokenize ''(?<!a)'' 0
       = Some ([createToken GROUP_OPEN ''('' 0, createToken CHAR_T ''<'' 2,
                createToken CHAR_T ''!'' 3, createToken CHAR_T ''a'' 4,
                createToken GROUP_CLOSE '')'' 5], 6)"
    by code_simp
  from 1 2 3 4 show ?thesis by blast
qed

theorem noncapturing_prefix_plain_witness:
  "str_index ''z(?:a)'' (1 + 1) = Some (CHR ''?'') \<and> str_index ''z(?:a)'' (1 + 2) = Some (CHR '':'')
   \<and> (\<exists>rest. fst (parseGroup ''z(?:a)'' 1)
            = createToken GROUP_OPEN ''('' 1 # createToken CHAR_T '':'' (1 + 2) # rest)
   \<and> list_all (\<lambda>t. \<not> lookahead_kind (type t)) (fst (parseGroup ''z(?:a)'' 1))"
proof -
  have a: "str_index ''z(?:a)'' (1 + 1) = Some (CHR ''?'') \<and> str_index ''z(?:a)'' (1 + 2) = Some (CHR '':'')"
    by (simp add: str_index_def)
  from a noncapturing_prefix_plain [of "''z(?:a)''" 1 "CHR '':''"] show ?thesis by blast
qed

text \<open>C8: when the character after a backslash is a decimal digit, the escape scan
  takes that one digit and gives one \<open>BACKREFERENCE\<close> token whose text is the backslash
  and the digit, leaving the cursor right behind the digit; on a backslash followed by
  10 the 1 is in the \<open>BACKREFERENCE\<close> token and the 0 is a \<open>CHAR_T\<close> token of its
  own.\<close>

theorem backreference_one_digit:
  "(str_index regex (pos + 1) = Some d \<and> isDigit d
      \<longrightarrow> parseEscape regex pos = (createToken BACKREFERENCE [backslash, d] (pos + 2), pos + 2))
   \<and> tokenize [backslash, CHR ''1'', CHR ''0''] 0
       = Some ([createToken BACKREFERENCE [backslash, CHR ''1''] 2,
                createToken CHAR_T ''0'' 2], 3)
   \<and> tokenize [CHR ''a'', backslash, CHR ''1'', CHR ''0'', CHR ''b''] 0
       = Some ([createToken CHAR_T ''a'' 0,
                createToken BACKREFERENCE [backslash, CHR ''1''] 3,
                createToken CHAR_T ''0'' 3, createToken CHAR_T ''b'' 4], 5)"
proof -
  have "tokenize [backslash, CHR ''1'', CHR ''0''] 0
       = Some ([createToken BACKREFERENCE [backslash, CHR ''1''] 2,
                createToken CHAR_T ''0'' 2], 3)"
    by code_simp
  moreover have "tokenize [CHR ''a'', backslash, CHR ''1'', CHR ''0'', CHR ''b''] 0
       = Some ([createToken CHAR_T ''a'' 0,
                createToken BACKREFERENCE [backslash, CHR ''1''] 3,
                createToken CHAR_T ''0'' 3, createToken CHAR_T ''b'' 4], 5)"
    by code_simp
  ultimately show ?thesis
    using parseEscape_digit [of regex pos d] by blast
qed

theorem backreference_one_digit_witness:
  "str_index [backslash, CHR ''7'', CHR ''3''] (0 + 1) = Some (CHR ''7'') \<and> isDigit (CHR ''7'')
   \<and> parseEscape [backslash, CHR ''7'', CHR ''3''] 0
       = (createToken BACKREFERENCE [backslash, CHR ''7''] (0 + 2), 0 + 2)"
proof -
  have a: "str_index [backslash, CHR ''7'', CHR ''3''] (0 + 1) = Some (CHR ''7'') \<and> isDigit (CHR ''7'')"
    by (simp add: str_index_def isDigit_def)
  from a backreference_one_digit [of "[backslash, CHR ''7'', CHR ''3'']" 0 "CHR ''7''"]
  show ?thesis by blast
qed

text \<open>C9: \<^verbatim>\<open>tokenize\<close> returns, and the positions of the tokens it returns are in
  non-decreasing order, each between the cursor at the call and the cursor at the
  return. Neighbours can have the same position: on a backslash followed by 10 the two
  tokens both have position 2.\<close>

theorem token_positions_sorted:
  "(\<exists>toks p. tokenize regex pos = Some (toks, p) \<and> sorted (map position toks)
      \<and> list_all (\<lambda>t. pos \<le> position t \<and> position t \<le> p) toks)
   \<and> tokenize [backslash, CHR ''1'', CHR ''0''] 0
       = Some ([createToken BACKREFERENCE [backslash, CHR ''1''] 2,
                createToken CHAR_T ''0'' 2], 3)
   \<and> map position [createToken BACKREFERENCE [backslash, CHR ''1''] 2,
                     createToken CHAR_T ''0'' 2] = [2, 2]"
proof -
  obtain toks p where r: "tokenize regex pos = Some (toks, p)"
    using tokenize_returns [of regex pos] by blast
  then have "sorted (map position toks)
      \<and> list_all (\<lambda>t. pos \<le> position t \<and> position t \<le> p) toks"
    using tokenize_positions [of regex pos toks p] by (simp add: positions_within_def)
  with r have "\<exists>toks p. tokenize regex pos = Some (toks, p) \<and> sorted (map position toks)
      \<and> list_all (\<lambda>t. pos \<le> position t \<and> position t \<le> p) toks"
    by blast
  moreover have "tokenize [backslash, CHR ''1'', CHR ''0''] 0
       = Some ([createToken BACKREFERENCE [backslash, CHR ''1''] 2,
                createToken CHAR_T ''0'' 2], 3)"
    by code_simp
  moreover have "map position [createToken BACKREFERENCE [backslash, CHR ''1''] 2,
                     createToken CHAR_T ''0'' 2] = [2, 2]"
    by (simp add: createToken_def)
  ultimately show ?thesis by blast
qed


end
